theory Spec2Isabelle
  imports Main
begin

section \<open>Data model\<close>

text \<open>
  The Python exceptions the placement code can raise are values of \<open>error\<close>; a
  function that can raise returns \<open>error + 'a\<close>, with \<open>Inl\<close> for the exception.
  \<open>KeyError\<close>: a vertex label that is not a node of the multi-stage graph;
  \<open>IndexError\<close>: an index outside a list or tuple;
  \<open>NodeNotFound\<close>: a reachability query of the graph library on an id that is not a
  node of the substrate graph;
  \<open>TypeError\<close>: the sum of a tuple and a list.
\<close>

datatype error = KeyError | IndexError | NodeNotFound | TypeError

text \<open>Class \<open>PhysicalNode\<close>; the field \<open>id\<close> is called \<open>node_id\<close> here.\<close>

record PhysicalNode =
  node_id :: nat
  cpu :: int
  used_cpu :: int
  activated :: bool

definition has_resources :: "PhysicalNode \<Rightarrow> int \<Rightarrow> bool" where
  "has_resources self required = (cpu self - used_cpu self \<ge> required)"

definition reserve :: "PhysicalNode \<Rightarrow> int \<Rightarrow> PhysicalNode" where
  "reserve self required =
     (let self1 = (if \<not> activated self then self\<lparr>activated := True\<rparr> else self)
      in self1\<lparr>used_cpu := used_cpu self1 + required\<rparr>)"

definition reset :: "PhysicalNode \<Rightarrow> PhysicalNode" where
  "reset self = self\<lparr>used_cpu := 0, activated := False\<rparr>"

text \<open>
  Class \<open>SFCRequest\<close>. The code reads of \<open>sfc.src\<close> and \<open>sfc.dest\<close> only their host
  ids, so the fields \<open>src\<close> and \<open>dest\<close> hold these ids.
\<close>

record SFCRequest =
  sfc_id :: nat
  src :: nat
  dest :: nat
  stages :: "int list"
  bw :: int
  max_delay :: int

text \<open>
  The substrate graph is an object of the graph library. The model takes what the code
  asks of it as parameters: whether an id is a node, whether two nodes are connected,
  the path \<open>nx.shortest_path(Gp, u, v, weight='delay')\<close> returns, and the \<open>delay\<close> and
  \<open>cost\<close> attributes of a link.
\<close>

record substrate =
  has_node :: "nat \<Rightarrow> bool"
  reachable :: "nat \<Rightarrow> nat \<Rightarrow> bool"
  shortest_path :: "nat \<Rightarrow> nat \<Rightarrow> nat list"
  link_delay :: "nat \<Rightarrow> nat \<Rightarrow> int"
  link_cost :: "nat \<Rightarrow> nat \<Rightarrow> int"

text \<open>\<open>nx.has_path\<close> raises when an endpoint is not a node of the graph.\<close>

definition has_path :: "substrate \<Rightarrow> nat \<Rightarrow> nat \<Rightarrow> error + bool" where
  "has_path Gp u v =
     (if has_node Gp u \<and> has_node Gp v then Inr (reachable Gp u v) else Inl NodeNotFound)"

text \<open>\<open>sum(Gp[path[i]][path[i+1]][w] for i in range(len(path)-1))\<close>\<close>

fun path_sum :: "(nat \<Rightarrow> nat \<Rightarrow> int) \<Rightarrow> nat list \<Rightarrow> int" where
  "path_sum w (a # b # rest) = w a b + path_sum w (b # rest)"
| "path_sum w rest = 0"

definition sp_delay :: "substrate \<Rightarrow> nat \<Rightarrow> nat \<Rightarrow> int" where
  "sp_delay Gp u v = path_sum (link_delay Gp) (shortest_path Gp u v)"

definition sp_cost :: "substrate \<Rightarrow> nat \<Rightarrow> nat \<Rightarrow> int" where
  "sp_cost Gp u v = path_sum (link_cost Gp) (shortest_path Gp u v)"

text \<open>
  A vertex of the multi-stage graph is named \<open>f"{node.id}_s{stage_idx}"\<close>; the model
  keeps the two numbers of the name as a pair. The graph stores for a vertex the
  attributes \<open>physical\<close>, \<open>stage\<close> and \<open>cpu\<close> (here \<open>vcpu\<close>), for an edge \<open>delay\<close> and
  \<open>cost\<close>.
\<close>

type_synonym vlabel = "nat \<times> nat"

record vattrs =
  physical :: nat
  stage :: nat
  vcpu :: int

record eattrs =
  delay :: int
  cost :: int

record msg =
  nodes :: "vlabel \<Rightarrow> vattrs option"
  edges :: "vlabel \<times> vlabel \<Rightarrow> eattrs option"

definition empty_msg :: msg where
  "empty_msg = \<lparr>nodes = (\<lambda>v. None), edges = (\<lambda>e. None)\<rparr>"

definition add_node :: "msg \<Rightarrow> vlabel \<Rightarrow> vattrs \<Rightarrow> msg" where
  "add_node M v a = M\<lparr>nodes := (nodes M)(v \<mapsto> a)\<rparr>"

definition add_edge :: "msg \<Rightarrow> vlabel \<Rightarrow> vlabel \<Rightarrow> eattrs \<Rightarrow> msg" where
  "add_edge M u v a = M\<lparr>edges := (edges M)((u, v) \<mapsto> a)\<rparr>"

text \<open>\<open>MSG.nodes[v]['physical']\<close> and \<open>MSG.nodes[v]['cpu']\<close>\<close>

definition physical_of :: "msg \<Rightarrow> vlabel \<Rightarrow> error + nat" where
  "physical_of M v = (case nodes M v of None \<Rightarrow> Inl KeyError | Some a \<Rightarrow> Inr (physical a))"

definition cpu_of :: "msg \<Rightarrow> vlabel \<Rightarrow> error + int" where
  "cpu_of M v = (case nodes M v of None \<Rightarrow> Inl KeyError | Some a \<Rightarrow> Inr (vcpu a))"

definition NODE_ACTIVATION_COST :: int where
  "NODE_ACTIVATION_COST = 2"

definition PE_DEPLOY_UNIT_COST :: int where
  "PE_DEPLOY_UNIT_COST = 1"

section \<open>Reservation\<close>

text \<open>
  \<open>reserve_resources\<close>: the loop over the path, with the ledger \<open>physical_nodes\<close> and
  the running \<open>extra_cost\<close> as explicit state. \<open>physical_nodes[node_id]\<close> raises
  \<open>IndexError\<close> outside the list.
\<close>

fun reserve_loop ::
  "vlabel list \<Rightarrow> msg \<Rightarrow> PhysicalNode list \<Rightarrow> int \<Rightarrow> error + (int \<times> PhysicalNode list)" where
  "reserve_loop [] MSG physical_nodes extra_cost = Inr (extra_cost, physical_nodes)"
| "reserve_loop (node_label # rest) MSG physical_nodes extra_cost =
     (case physical_of MSG node_label of Inl e \<Rightarrow> Inl e
      | Inr nid \<Rightarrow>
     (case cpu_of MSG node_label of Inl e \<Rightarrow> Inl e
      | Inr cpu_req \<Rightarrow>
     (if nid < length physical_nodes then
        (let node = physical_nodes ! nid;
             extra_cost1 = (if \<not> activated node then extra_cost + NODE_ACTIVATION_COST
                            else extra_cost);
             extra_cost2 = extra_cost1 + cpu_req * PE_DEPLOY_UNIT_COST
         in reserve_loop rest MSG (physical_nodes[nid := reserve node cpu_req]) extra_cost2)
      else Inl IndexError)))"

definition reserve_resources ::
  "vlabel list \<Rightarrow> msg \<Rightarrow> PhysicalNode list \<Rightarrow> error + (int \<times> PhysicalNode list)" where
  "reserve_resources path MSG physical_nodes = reserve_loop path MSG physical_nodes 0"

section \<open>Building the multi-stage graph\<close>

text \<open>
  \<open>construct_msg\<close>, first loop nest: for one stage, the loop over the ledger adds a
  vertex for every host that has the resources and is not excluded, and appends its
  name to \<open>current_stage\<close>.
\<close>

fun stage_loop ::
  "nat \<Rightarrow> int \<Rightarrow> nat set \<Rightarrow> PhysicalNode list \<Rightarrow> msg \<Rightarrow> vlabel list \<Rightarrow> msg \<times> vlabel list" where
  "stage_loop stage_idx cpu_req used_nodes [] MSG current_stage = (MSG, current_stage)"
| "stage_loop stage_idx cpu_req used_nodes (node # rest) MSG current_stage =
     (if has_resources node cpu_req \<and> node_id node \<notin> used_nodes then
        let vname = (node_id node, stage_idx) in
        stage_loop stage_idx cpu_req used_nodes rest
          (add_node MSG vname \<lparr>physical = node_id node, stage = stage_idx, vcpu = cpu_req\<rparr>)
          (current_stage @ [vname])
      else stage_loop stage_idx cpu_req used_nodes rest MSG current_stage)"

text \<open>The loop over \<open>enumerate(sfc.stages)\<close>.\<close>

fun stages_loop ::
  "nat \<Rightarrow> int list \<Rightarrow> nat set \<Rightarrow> PhysicalNode list \<Rightarrow> msg \<Rightarrow> vlabel list list
     \<Rightarrow> msg \<times> vlabel list list" where
  "stages_loop stage_idx [] used_nodes physical_nodes MSG stage_nodes = (MSG, stage_nodes)"
| "stages_loop stage_idx (cpu_req # rest) used_nodes physical_nodes MSG stage_nodes =
     (case stage_loop stage_idx cpu_req used_nodes physical_nodes MSG [] of
        (MSG1, current_stage) \<Rightarrow>
          stages_loop (Suc stage_idx) rest used_nodes physical_nodes MSG1
            (stage_nodes @ [current_stage]))"

text \<open>
  Second loop nest: for \<open>u\<close> of stage \<open>i\<close> and \<open>v\<close> of stage \<open>i + 1\<close>, an edge is added
  when the hosts differ and the substrate has a path between them.
\<close>

fun edge_loop_v :: "substrate \<Rightarrow> vlabel \<Rightarrow> vlabel list \<Rightarrow> msg \<Rightarrow> error + msg" where
  "edge_loop_v Gp u [] MSG = Inr MSG"
| "edge_loop_v Gp u (v # rest) MSG =
     (case physical_of MSG u of Inl e \<Rightarrow> Inl e | Inr pu \<Rightarrow>
     (case physical_of MSG v of Inl e \<Rightarrow> Inl e | Inr pv \<Rightarrow>
       (if pu = pv then edge_loop_v Gp u rest MSG
        else (case has_path Gp pu pv of Inl e \<Rightarrow> Inl e
              | Inr connected \<Rightarrow>
                  (if connected then
                     edge_loop_v Gp u rest
                       (add_edge MSG u v \<lparr>delay = sp_delay Gp pu pv, cost = sp_cost Gp pu pv\<rparr>)
                   else edge_loop_v Gp u rest MSG)))))"

fun edge_loop_u :: "substrate \<Rightarrow> vlabel list \<Rightarrow> vlabel list \<Rightarrow> msg \<Rightarrow> error + msg" where
  "edge_loop_u Gp [] vs MSG = Inr MSG"
| "edge_loop_u Gp (u # rest) vs MSG =
     (case edge_loop_v Gp u vs MSG of Inl e \<Rightarrow> Inl e
      | Inr MSG1 \<Rightarrow> edge_loop_u Gp rest vs MSG1)"

fun edge_loop_i :: "substrate \<Rightarrow> vlabel list list \<Rightarrow> msg \<Rightarrow> error + msg" where
  "edge_loop_i Gp (us # vs # rest) MSG =
     (case edge_loop_u Gp us vs MSG of Inl e \<Rightarrow> Inl e
      | Inr MSG1 \<Rightarrow> edge_loop_i Gp (vs # rest) MSG1)"
| "edge_loop_i Gp rest MSG = Inr MSG"

definition construct_msg ::
  "substrate \<Rightarrow> SFCRequest \<Rightarrow> PhysicalNode list \<Rightarrow> nat set \<Rightarrow> error + (msg \<times> vlabel list list)" where
  "construct_msg Gp sfc physical_nodes used_nodes =
     (case stages_loop 0 (stages sfc) used_nodes physical_nodes empty_msg [] of
        (MSG, stage_nodes) \<Rightarrow>
          (case edge_loop_i Gp stage_nodes MSG of Inl e \<Rightarrow> Inl e
           | Inr MSG1 \<Rightarrow> Inr (MSG1, stage_nodes)))"

section \<open>Searching a feasible path\<close>

text \<open>
  The body of the loop over \<open>product(*stage_nodes)\<close>. The enumeration of
  \<open>itertools.product\<close> is \<^const>\<open>product_lists\<close>: the last position varies fastest,
  and the product of no list is the one empty tuple.

  First inner loop: no two vertices of the path on one host.
\<close>

fun seen_loop :: "msg \<Rightarrow> vlabel list \<Rightarrow> nat set \<Rightarrow> error + bool" where
  "seen_loop MSG [] physical_seen = Inr True"
| "seen_loop MSG (node # rest) physical_seen =
     (case physical_of MSG node of Inl e \<Rightarrow> Inl e
      | Inr pnode \<Rightarrow>
          (if pnode \<in> physical_seen then Inr False
           else seen_loop MSG rest (insert pnode physical_seen)))"

text \<open>
  Second inner loop: every consecutive pair is an edge; \<open>None\<close> stands for
  \<open>valid = False\<close>, otherwise the sums of the edges' delay and cost.
\<close>

fun hop_loop :: "msg \<Rightarrow> vlabel list \<Rightarrow> int \<Rightarrow> int \<Rightarrow> (int \<times> int) option" where
  "hop_loop MSG (a # b # rest) dly cst =
     (case edges MSG (a, b) of None \<Rightarrow> None
      | Some e \<Rightarrow> hop_loop MSG (b # rest) (dly + delay e) (cst + cost e))"
| "hop_loop MSG rest dly cst = Some (dly, cst)"

text \<open>
  The path from the source to the first host, and from the last host to the
  destination: \<open>(0, 0)\<close> when the two coincide or no path exists.
\<close>

definition endpoint_term :: "substrate \<Rightarrow> bool \<Rightarrow> nat \<Rightarrow> nat \<Rightarrow> error + (int \<times> int)" where
  "endpoint_term Gp differ a b =
     (if differ then
        (case has_path Gp a b of Inl e \<Rightarrow> Inl e
         | Inr connected \<Rightarrow>
             Inr (if connected then (sp_delay Gp a b, sp_cost Gp a b) else (0, 0)))
      else Inr (0, 0))"

definition check_path ::
  "msg \<Rightarrow> SFCRequest \<Rightarrow> substrate \<Rightarrow> vlabel list \<Rightarrow> error + (vlabel list \<times> int \<times> int) option" where
  "check_path MSG sfc Gp path =
     (case seen_loop MSG path {} of Inl e \<Rightarrow> Inl e
      | Inr valid \<Rightarrow>
     (if \<not> valid then Inr None
      else (case hop_loop MSG path 0 0 of None \<Rightarrow> Inr None
            | Some (dly, cst) \<Rightarrow>
     (case path of [] \<Rightarrow> Inl IndexError
      | first # others \<Rightarrow>
     (case physical_of MSG first of Inl e \<Rightarrow> Inl e
      | Inr first_physical \<Rightarrow>
     (case endpoint_term Gp (first_physical \<noteq> src sfc) (src sfc) first_physical of
        Inl e \<Rightarrow> Inl e
      | Inr (src_delay, src_cost) \<Rightarrow>
     (case physical_of MSG (last path) of Inl e \<Rightarrow> Inl e
      | Inr last_physical \<Rightarrow>
     (case endpoint_term Gp (last_physical \<noteq> dest sfc) last_physical (dest sfc) of
        Inl e \<Rightarrow> Inl e
      | Inr (dest_delay, dest_cost) \<Rightarrow>
          (let total_delay = dly + src_delay + dest_delay;
               total_cost = cst + src_cost + dest_cost
           in if total_delay \<le> max_delay sfc
              then Inr (Some (path, total_delay, total_cost))
              else Inr None)))))))))"

text \<open>
  The same body in \<open>brute-force_SFC_placement.py\<close>: the totals are the sums over the
  edges of the path.
\<close>

definition check_path_bf ::
  "msg \<Rightarrow> SFCRequest \<Rightarrow> vlabel list \<Rightarrow> error + (vlabel list \<times> int \<times> int) option" where
  "check_path_bf MSG sfc path =
     (case seen_loop MSG path {} of Inl e \<Rightarrow> Inl e
      | Inr valid \<Rightarrow>
     (if \<not> valid then Inr None
      else (case hop_loop MSG path 0 0 of None \<Rightarrow> Inr None
            | Some (dly, cst) \<Rightarrow>
                (let total_delay = dly
                 in if total_delay \<le> max_delay sfc
                    then Inr (Some (path, total_delay, cst))
                    else Inr None))))"

text \<open>The loop over the candidates, collecting \<open>paths\<close>.\<close>

fun collect_paths ::
  "(vlabel list \<Rightarrow> error + (vlabel list \<times> int \<times> int) option) \<Rightarrow> vlabel list list
     \<Rightarrow> (vlabel list \<times> int \<times> int) list \<Rightarrow> error + (vlabel list \<times> int \<times> int) list" where
  "collect_paths body [] paths = Inr paths"
| "collect_paths body (path # rest) paths =
     (case body path of Inl e \<Rightarrow> Inl e
      | Inr None \<Rightarrow> collect_paths body rest paths
      | Inr (Some r) \<Rightarrow> collect_paths body rest (paths @ [r]))"

text \<open>
  \<open>min(paths, key=lambda x: x[2]) if paths else None\<close>: Python's \<open>min\<close> keeps the
  first of the items with the least key.
\<close>

fun min_loop :: "('a \<times> int \<times> int) \<Rightarrow> ('a \<times> int \<times> int) list \<Rightarrow> ('a \<times> int \<times> int)" where
  "min_loop best [] = best"
| "min_loop best (x # xs) =
     (if snd (snd x) < snd (snd best) then min_loop x xs else min_loop best xs)"

definition min_by_cost :: "('a \<times> int \<times> int) list \<Rightarrow> ('a \<times> int \<times> int) option" where
  "min_by_cost paths = (case paths of [] \<Rightarrow> None | p # ps \<Rightarrow> Some (min_loop p ps))"

definition find_feasible_path ::
  "msg \<Rightarrow> vlabel list list \<Rightarrow> SFCRequest \<Rightarrow> substrate
     \<Rightarrow> error + (vlabel list \<times> int \<times> int) option" where
  "find_feasible_path MSG stage_nodes sfc Gp =
     (case collect_paths (check_path MSG sfc Gp) (product_lists stage_nodes) [] of
        Inl e \<Rightarrow> Inl e
      | Inr paths \<Rightarrow> Inr (min_by_cost paths))"

definition find_feasible_path_bf ::
  "msg \<Rightarrow> vlabel list list \<Rightarrow> SFCRequest \<Rightarrow> error + (vlabel list \<times> int \<times> int) option" where
  "find_feasible_path_bf MSG stage_nodes sfc =
     (case collect_paths (check_path_bf MSG sfc) (product_lists stage_nodes) [] of
        Inl e \<Rightarrow> Inl e
      | Inr paths \<Rightarrow> Inr (min_by_cost paths))"

section \<open>The batch\<close>

text \<open>The dictionary \<open>run_simulation\<close> appends to \<open>placements\<close> for an accepted request.\<close>

record placement =
  Source :: nat
  Destination :: nat
  SFC_ID :: nat
  Active_Path :: "vlabel list"
  Active_Delay :: int
  Active_Cost :: int
  Backup_Path :: "vlabel list"
  Backup_Delay :: int
  Backup_Cost :: int
  Deploy_Cost_active :: int
  Deploy_Cost_backup :: int
  Backup_Delay_Cost :: int
  Total_Cost :: int

text \<open>
  The loop over \<open>zip(path_active, path_backup)\<close> that sums the delay between the
  active and the backup host of each stage.
\<close>

fun backup_delay_loop ::
  "substrate \<Rightarrow> msg \<Rightarrow> msg \<Rightarrow> (vlabel \<times> vlabel) list \<Rightarrow> int \<Rightarrow> error + int" where
  "backup_delay_loop Gp MSG_active MSG_backup [] backup_delay_cost = Inr backup_delay_cost"
| "backup_delay_loop Gp MSG_active MSG_backup ((a_node, b_node) # rest) backup_delay_cost =
     (case physical_of MSG_active a_node of Inl e \<Rightarrow> Inl e | Inr a_physical \<Rightarrow>
     (case physical_of MSG_backup b_node of Inl e \<Rightarrow> Inl e | Inr b_physical \<Rightarrow>
     (case has_path Gp a_physical b_physical of Inl e \<Rightarrow> Inl e
      | Inr connected \<Rightarrow>
          (if connected then
             backup_delay_loop Gp MSG_active MSG_backup rest
               (backup_delay_cost + sp_delay Gp a_physical b_physical)
           else backup_delay_loop Gp MSG_active MSG_backup rest backup_delay_cost))))"

text \<open>
  The body of the loop over the requests. It returns the ledger, the placement the
  request appends to \<open>placements\<close> (\<open>None\<close> when the body ends in \<open>continue\<close>), and the
  ledger as it stands after each call of \<open>construct_msg\<close>, \<open>find_feasible_path\<close> and
  \<open>reserve_resources\<close>, in the order of the calls. The last list is not a value of the
  Python code: it names the points of the run a statement about "every point" is about.

  \<open>used_nodes\<close> is \<open>set(int(n.split('_')[0]) for n in path_active)\<close>: of each name, the
  host id before the underscore.
\<close>

definition place_request ::
  "substrate \<Rightarrow> PhysicalNode list \<Rightarrow> SFCRequest
     \<Rightarrow> error + (PhysicalNode list \<times> placement option \<times> PhysicalNode list list)" where
  "place_request Gp physical_nodes sfc =
     (case construct_msg Gp sfc physical_nodes {} of Inl e \<Rightarrow> Inl e
      | Inr (MSG_active, stage_nodes_active) \<Rightarrow>
     (if \<not> list_all (\<lambda>st. st \<noteq> []) stage_nodes_active
      then Inr (physical_nodes, None, [physical_nodes])
      else
     (case find_feasible_path MSG_active stage_nodes_active sfc Gp of Inl e \<Rightarrow> Inl e
      | Inr None \<Rightarrow> Inr (physical_nodes, None, [physical_nodes, physical_nodes])
      | Inr (Some (path_active, delay_active, cost_active)) \<Rightarrow>
     (case reserve_resources path_active MSG_active physical_nodes of Inl e \<Rightarrow> Inl e
      | Inr (extra_cost_a, nodes1) \<Rightarrow>
     (let used_nodes = set (map fst path_active) in
     (case construct_msg Gp sfc nodes1 used_nodes of Inl e \<Rightarrow> Inl e
      | Inr (MSG_backup, stage_nodes_backup) \<Rightarrow>
     (case find_feasible_path MSG_backup stage_nodes_backup sfc Gp of Inl e \<Rightarrow> Inl e
      | Inr (Some (path_backup, delay_backup, cost_backup)) \<Rightarrow>
         (case reserve_resources path_backup MSG_backup nodes1 of Inl e \<Rightarrow> Inl e
          | Inr (extra_cost_b, nodes2) \<Rightarrow>
         (case backup_delay_loop Gp MSG_active MSG_backup (zip path_active path_backup) 0 of
            Inl e \<Rightarrow> Inl e
          | Inr backup_delay_cost \<Rightarrow>
              Inr (nodes2,
                   Some \<lparr>Source = src sfc, Destination = dest sfc, SFC_ID = sfc_id sfc,
                         Active_Path = path_active, Active_Delay = delay_active,
                         Active_Cost = cost_active,
                         Backup_Path = path_backup, Backup_Delay = delay_backup,
                         Backup_Cost = cost_backup,
                         Deploy_Cost_active = extra_cost_a, Deploy_Cost_backup = extra_cost_b,
                         Backup_Delay_Cost = backup_delay_cost,
                         Total_Cost = cost_active + cost_backup + extra_cost_a + extra_cost_b
                                      + backup_delay_cost\<rparr>,
                   [physical_nodes, physical_nodes, nodes1, nodes1, nodes1, nodes2])))
      | Inr None \<Rightarrow>
          Inr (nodes1,
               Some \<lparr>Source = src sfc, Destination = dest sfc, SFC_ID = sfc_id sfc,
                     Active_Path = path_active, Active_Delay = delay_active,
                     Active_Cost = cost_active,
                     Backup_Path = [], Backup_Delay = 0, Backup_Cost = 0,
                     Deploy_Cost_active = extra_cost_a, Deploy_Cost_backup = 0,
                     Backup_Delay_Cost = 0,
                     Total_Cost = cost_active + extra_cost_a\<rparr>,
               [physical_nodes, physical_nodes, nodes1, nodes1, nodes1]))))))))"

text \<open>
  The loop over \<open>sfc_requests\<close>: the ledger carries over from one request to the next,
  and a request without a placement appends nothing.
\<close>

fun request_loop ::
  "substrate \<Rightarrow> SFCRequest list \<Rightarrow> PhysicalNode list \<Rightarrow> placement list \<Rightarrow> PhysicalNode list list
     \<Rightarrow> error + (PhysicalNode list \<times> placement list \<times> PhysicalNode list list)" where
  "request_loop Gp [] physical_nodes placements history =
     Inr (physical_nodes, placements, history)"
| "request_loop Gp (sfc # rest) physical_nodes placements history =
     (case place_request Gp physical_nodes sfc of Inl e \<Rightarrow> Inl e
      | Inr (nodes1, result, points) \<Rightarrow>
          request_loop Gp rest nodes1
            (case result of None \<Rightarrow> placements | Some r \<Rightarrow> placements @ [r])
            (history @ points))"

text \<open>
  \<open>run_monitoring_placement\<close>, which \<open>run_simulation\<close> calls after the loop. A path
  the search returns is a tuple, and \<open>Backup_Path\<close> of a request without backup is the
  list \<open>[]\<close>; for such a placement \<open>placement['Active_Path'] +
  placement['Backup_Path']\<close> adds a list to a tuple and raises. A backup path that was
  found is never empty, so the empty \<open>Backup_Path\<close> is exactly that case.
\<close>

record vmf_placement =
  VMF_ID :: nat
  Host_Node :: nat
  Monitors_SFC :: nat

fun vmf_node_loop ::
  "nat list \<Rightarrow> nat \<Rightarrow> nat set \<Rightarrow> vmf_placement list \<Rightarrow> nat
     \<Rightarrow> nat set \<times> vmf_placement list \<times> nat" where
  "vmf_node_loop [] sid vmf_nodes vmf_placements vmf_id_counter =
     (vmf_nodes, vmf_placements, vmf_id_counter)"
| "vmf_node_loop (node # rest) sid vmf_nodes vmf_placements vmf_id_counter =
     (if node \<notin> vmf_nodes then
        vmf_node_loop rest sid (insert node vmf_nodes)
          (vmf_placements @ [\<lparr>VMF_ID = vmf_id_counter, Host_Node = node, Monitors_SFC = sid\<rparr>])
          (Suc vmf_id_counter)
      else vmf_node_loop rest sid vmf_nodes vmf_placements vmf_id_counter)"

fun vmf_loop ::
  "placement list \<Rightarrow> nat set \<Rightarrow> vmf_placement list \<Rightarrow> nat \<Rightarrow> error + vmf_placement list" where
  "vmf_loop [] vmf_nodes vmf_placements vmf_id_counter = Inr vmf_placements"
| "vmf_loop (placement # rest) vmf_nodes vmf_placements vmf_id_counter =
     (if Backup_Path placement = [] then Inl TypeError
      else
        (let all_paths = Active_Path placement @ Backup_Path placement;
             physical_path = map fst all_paths
         in (case vmf_node_loop physical_path (SFC_ID placement) vmf_nodes vmf_placements
                   vmf_id_counter of
               (vmf_nodes1, vmf_placements1, vmf_id_counter1) \<Rightarrow>
                 vmf_loop rest vmf_nodes1 vmf_placements1 vmf_id_counter1)))"

definition run_monitoring_placement :: "placement list \<Rightarrow> error + vmf_placement list" where
  "run_monitoring_placement placements = vmf_loop placements {} [] 0"

text \<open>
  \<open>run_simulation\<close> builds the ledger \<open>[PhysicalNode(i, MAX_CPU_PER_NODE) for i in
  range(NUM_PHYSICAL_NODES)]\<close>, runs the loop over the requests and then the monitoring
  placement, and returns the placements. The substrate graph and the requests come
  from the two generators, which are parameters here; the final ledger, which the code
  prints, and the ledgers of the run are returned with the placements.
\<close>

definition NUM_PHYSICAL_NODES :: nat where
  "NUM_PHYSICAL_NODES = 6"

definition MAX_CPU_PER_NODE :: int where
  "MAX_CPU_PER_NODE = 7"

definition new_node :: "nat \<Rightarrow> int \<Rightarrow> PhysicalNode" where
  "new_node nid cpu_capacity =
     \<lparr>node_id = nid, cpu = cpu_capacity, used_cpu = 0, activated = False\<rparr>"

definition fresh_nodes :: "PhysicalNode list" where
  "fresh_nodes = map (\<lambda>i. new_node i MAX_CPU_PER_NODE) [0..<NUM_PHYSICAL_NODES]"

definition run_simulation ::
  "substrate \<Rightarrow> SFCRequest list
     \<Rightarrow> error + (PhysicalNode list \<times> placement list \<times> PhysicalNode list list)" where
  "run_simulation Gp sfc_requests =
     (case request_loop Gp sfc_requests fresh_nodes [] [] of Inl e \<Rightarrow> Inl e
      | Inr (physical_nodes, placements, history) \<Rightarrow>
          (case run_monitoring_placement placements of Inl e \<Rightarrow> Inl e
           | Inr vmf_df \<Rightarrow> Inr (physical_nodes, placements, history)))"

section \<open>The comparison harness\<close>

text \<open>
  \<open>brute-force_SFC_placement.py\<close> has the class \<open>PhysicalNode\<close>, \<open>construct_msg\<close>
  and the backup-delay loop of \<open>MSG.py\<close> word for word, the search without the
  endpoint terms (\<^const>\<open>find_feasible_path_bf\<close>), no \<open>reserve_resources\<close>, and an
  exhaustive search over the substrate nodes to compare against. Its requests hold the
  node ids of source and destination themselves.

  \<open>itertools.permutations(all_nodes, r)\<close>: the tuples of \<open>r\<close> items at distinct
  positions, in the lexicographic order of the positions; none when \<open>r\<close> exceeds the
  number of items.
\<close>

fun permutations :: "nat \<Rightarrow> 'a list \<Rightarrow> 'a list list" where
  "permutations 0 xs = [[]]"
| "permutations (Suc r) xs =
     concat (map (\<lambda>i. map (\<lambda>p. xs ! i # p) (permutations r (take i xs @ drop (Suc i) xs)))
       [0..<length xs])"

text \<open>
  \<open>run_brute_force\<close>, inner loop over the consecutive pairs of a permutation: \<open>None\<close>
  stands for \<open>valid = False\<close>, otherwise the sums of the shortest paths' delay and
  cost.
\<close>

fun perm_loop :: "substrate \<Rightarrow> nat list \<Rightarrow> int \<Rightarrow> int \<Rightarrow> error + (int \<times> int) option" where
  "perm_loop G (a # b # rest) total_delay total_cost =
     (case has_path G a b of Inl e \<Rightarrow> Inl e
      | Inr connected \<Rightarrow>
          (if \<not> connected then Inr None
           else perm_loop G (b # rest) (total_delay + sp_delay G a b)
                  (total_cost + sp_cost G a b)))"
| "perm_loop G rest total_delay total_cost = Inr (Some (total_delay, total_cost))"

definition check_perm ::
  "substrate \<Rightarrow> SFCRequest \<Rightarrow> nat list \<Rightarrow> error + (nat list \<times> int \<times> int) option" where
  "check_perm G sfc perm =
     (case perm_loop G perm 0 0 of Inl e \<Rightarrow> Inl e
      | Inr None \<Rightarrow> Inr None
      | Inr (Some (total_delay, total_cost)) \<Rightarrow>
          (if total_delay > max_delay sfc then Inr None
           else Inr (Some (perm, total_delay, total_cost))))"

fun collect_perms ::
  "(nat list \<Rightarrow> error + (nat list \<times> int \<times> int) option) \<Rightarrow> nat list list
     \<Rightarrow> (nat list \<times> int \<times> int) list \<Rightarrow> error + (nat list \<times> int \<times> int) list" where
  "collect_perms body [] placements = Inr placements"
| "collect_perms body (perm # rest) placements =
     (case body perm of Inl e \<Rightarrow> Inl e
      | Inr None \<Rightarrow> collect_perms body rest placements
      | Inr (Some r) \<Rightarrow> collect_perms body rest (placements @ [r]))"

text \<open>
  \<open>all_nodes\<close> is \<open>list(G.nodes)\<close>; the substrate gives its nodes as a predicate, so
  their list is a parameter here.
\<close>

definition run_brute_force ::
  "substrate \<Rightarrow> nat list \<Rightarrow> SFCRequest \<Rightarrow> error + (nat list \<times> int \<times> int) option" where
  "run_brute_force G all_nodes sfc =
     (case collect_perms (check_perm G sfc) (permutations (length (stages sfc)) all_nodes) [] of
        Inl e \<Rightarrow> Inl e
      | Inr placements \<Rightarrow> Inr (min_by_cost placements))"

text \<open>
  The dictionary \<open>simulate_with_msg_and_brute\<close> appends to \<open>placements\<close>. Its keys
  \<open>SFC_ID\<close>, \<open>Source\<close> and \<open>Destination\<close> carry a suffix here, the names being those of
  the fields of \<^typ>\<open>placement\<close>.
\<close>

record comparison =
  SFC_ID_bf :: nat
  Source_bf :: nat
  Destination_bf :: nat
  MSG_Active_Path :: "vlabel list"
  MSG_Backup_Path :: "vlabel list"
  MSG_Total_Cost :: int
  MSG_Active_Delay :: int
  MSG_Backup_Delay :: int
  BruteForce_Cost :: int
  BruteForce_Delay :: int

text \<open>\<open>set(MSG_active.nodes[p]['physical'] for p in path_active)\<close>.\<close>

fun used_nodes_of :: "msg \<Rightarrow> vlabel list \<Rightarrow> nat set \<Rightarrow> error + nat set" where
  "used_nodes_of MSG [] used_nodes = Inr used_nodes"
| "used_nodes_of MSG (p # rest) used_nodes =
     (case physical_of MSG p of Inl e \<Rightarrow> Inl e
      | Inr pnode \<Rightarrow> used_nodes_of MSG rest (insert pnode used_nodes))"

text \<open>
  The body of the loop over the requests in \<open>simulate_with_msg_and_brute\<close>: \<open>None\<close>
  when the body ends in \<open>continue\<close>, otherwise the dictionary it appends. No call
  reserves anything, so both graphs are built over the same ledger, which the body
  leaves as it is. A result of the search is a tuple of three items, which is true as
  a condition; \<open>if result_backup\<close> therefore tests for \<open>None\<close>.
\<close>

definition compare_request ::
  "substrate \<Rightarrow> nat list \<Rightarrow> PhysicalNode list \<Rightarrow> SFCRequest \<Rightarrow> error + comparison option" where
  "compare_request G all_nodes physical_nodes sfc =
     (case construct_msg G sfc physical_nodes {} of Inl e \<Rightarrow> Inl e
      | Inr (MSG_active, stage_nodes_active) \<Rightarrow>
     (case find_feasible_path_bf MSG_active stage_nodes_active sfc of Inl e \<Rightarrow> Inl e
      | Inr None \<Rightarrow> Inr None
      | Inr (Some (path_active, delay_active, cost_active)) \<Rightarrow>
     (case used_nodes_of MSG_active path_active {} of Inl e \<Rightarrow> Inl e
      | Inr used_nodes \<Rightarrow>
     (case construct_msg G sfc physical_nodes used_nodes of Inl e \<Rightarrow> Inl e
      | Inr (MSG_backup, stage_nodes_backup) \<Rightarrow>
     (case find_feasible_path_bf MSG_backup stage_nodes_backup sfc of Inl e \<Rightarrow> Inl e
      | Inr result_backup \<Rightarrow>
     (case (case result_backup of
              Some (path_backup, delay_backup, cost_backup) \<Rightarrow>
                (case backup_delay_loop G MSG_active MSG_backup (zip path_active path_backup) 0
                 of Inl e \<Rightarrow> Inl e
                  | Inr backup_delay_cost \<Rightarrow>
                      Inr (path_backup, delay_backup, cost_backup, backup_delay_cost))
            | None \<Rightarrow> Inr ([], 0, 0, 0))
      of Inl e \<Rightarrow> Inl e
       | Inr (path_backup, delay_backup, cost_backup, backup_delay_cost) \<Rightarrow>
     (let total_cost_msg = cost_active + cost_backup + backup_delay_cost in
     (case run_brute_force G all_nodes sfc of Inl e \<Rightarrow> Inl e
      | Inr result_brute \<Rightarrow>
     (case (case result_brute of
              Some (path_brute, delay_brute, cost_brute) \<Rightarrow> (delay_brute, cost_brute)
            | None \<Rightarrow> (0, 0))
      of (delay_brute, cost_brute) \<Rightarrow>
        Inr (Some \<lparr>SFC_ID_bf = sfc_id sfc, Source_bf = src sfc, Destination_bf = dest sfc,
                   MSG_Active_Path = path_active, MSG_Backup_Path = path_backup,
                   MSG_Total_Cost = total_cost_msg,
                   MSG_Active_Delay = delay_active, MSG_Backup_Delay = delay_backup,
                   BruteForce_Cost = cost_brute, BruteForce_Delay = delay_brute\<rparr>))))))))))"

text \<open>The loop over \<open>sfc_requests\<close>, with the one ledger.\<close>

fun compare_loop ::
  "substrate \<Rightarrow> nat list \<Rightarrow> SFCRequest list \<Rightarrow> PhysicalNode list \<Rightarrow> comparison list
     \<Rightarrow> error + comparison list" where
  "compare_loop G all_nodes [] physical_nodes placements = Inr placements"
| "compare_loop G all_nodes (sfc # rest) physical_nodes placements =
     (case compare_request G all_nodes physical_nodes sfc of Inl e \<Rightarrow> Inl e
      | Inr result \<Rightarrow>
          compare_loop G all_nodes rest physical_nodes
            (case result of None \<Rightarrow> placements | Some c \<Rightarrow> placements @ [c]))"

text \<open>
  \<open>simulate_with_msg_and_brute\<close> builds the ledger \<open>[PhysicalNode(i, MAX_CPU_PER_NODE)
  for i in range(NUM_NODES)]\<close> with the constants of its file, 10 and 15, and runs the
  loop; the substrate graph and the requests come from the two generators, which are
  parameters here, and the rows of the table it prints are returned.
\<close>

definition NUM_NODES :: nat where
  "NUM_NODES = 15"

definition MAX_CPU_PER_NODE_bf :: int where
  "MAX_CPU_PER_NODE_bf = 10"

definition fresh_nodes_bf :: "PhysicalNode list" where
  "fresh_nodes_bf = map (\<lambda>i. new_node i MAX_CPU_PER_NODE_bf) [0..<NUM_NODES]"

definition simulate_with_msg_and_brute ::
  "substrate \<Rightarrow> nat list \<Rightarrow> SFCRequest list \<Rightarrow> error + comparison list" where
  "simulate_with_msg_and_brute G all_nodes sfc_requests =
     compare_loop G all_nodes sfc_requests fresh_nodes_bf []"

section \<open>Notions used in the statements\<close>

text \<open>
  The host and the CPU demand a vertex carries in a multi-stage graph. They are read
  only for vertices the graph has.
\<close>

definition host_of :: "msg \<Rightarrow> vlabel \<Rightarrow> nat" where
  "host_of M v = physical (the (nodes M v))"

definition demand_of :: "msg \<Rightarrow> vlabel \<Rightarrow> int" where
  "demand_of M v = vcpu (the (nodes M v))"

text \<open>
  The candidates of a stage as the first loop nest of \<open>construct_msg\<close> lists them:
  the hosts of the ledger, in its order, that have the resources for the demand and
  are not excluded; and the list of these lists, one per stage of the request.
\<close>

definition candidates :: "PhysicalNode list \<Rightarrow> nat set \<Rightarrow> nat \<Rightarrow> int \<Rightarrow> vlabel list" where
  "candidates physical_nodes used_nodes s d =
     map (\<lambda>n. (node_id n, s))
       (filter (\<lambda>n. has_resources n d \<and> node_id n \<notin> used_nodes) physical_nodes)"

definition stage_lists :: "SFCRequest \<Rightarrow> PhysicalNode list \<Rightarrow> nat set \<Rightarrow> vlabel list list" where
  "stage_lists sfc physical_nodes used_nodes =
     map (\<lambda>s. candidates physical_nodes used_nodes s (stages sfc ! s)) [0..<length (stages sfc)]"

text \<open>
  Two vertices are linked when their hosts differ and the substrate connects them; a
  vertex is known when the graph has it and its host is a node of the substrate; two
  vertices are adjacent when they stand in consecutive stage lists.
\<close>

definition linked :: "substrate \<Rightarrow> msg \<Rightarrow> vlabel \<Rightarrow> vlabel \<Rightarrow> bool" where
  "linked Gp M u v = (host_of M u \<noteq> host_of M v \<and> reachable Gp (host_of M u) (host_of M v))"

definition link_attrs :: "substrate \<Rightarrow> msg \<Rightarrow> vlabel \<Rightarrow> vlabel \<Rightarrow> eattrs" where
  "link_attrs Gp M u v =
     \<lparr>delay = sp_delay Gp (host_of M u) (host_of M v), cost = sp_cost Gp (host_of M u) (host_of M v)\<rparr>"

definition known :: "substrate \<Rightarrow> msg \<Rightarrow> vlabel \<Rightarrow> bool" where
  "known Gp M v = (nodes M v \<noteq> None \<and> has_node Gp (host_of M v))"

definition adjacent :: "vlabel list list \<Rightarrow> vlabel \<Rightarrow> vlabel \<Rightarrow> bool" where
  "adjacent sn x y = (\<exists>i. Suc i < length sn \<and> x \<in> set (sn ! i) \<and> y \<in> set (sn ! Suc i))"

text \<open>
  The consecutive pairs of a path, the sums of the delay and of the cost of its edges,
  and the two filters of the search: pairwise distinct hosts, and an edge between
  every consecutive pair.
\<close>

definition hops :: "vlabel list \<Rightarrow> (vlabel \<times> vlabel) list" where
  "hops path = zip path (tl path)"

definition hop_delay :: "msg \<Rightarrow> vlabel list \<Rightarrow> int" where
  "hop_delay M path = sum_list (map (\<lambda>e. delay (the (edges M e))) (hops path))"

definition hop_cost :: "msg \<Rightarrow> vlabel list \<Rightarrow> int" where
  "hop_cost M path = sum_list (map (\<lambda>e. cost (the (edges M e))) (hops path))"

definition chain_ok :: "msg \<Rightarrow> vlabel list \<Rightarrow> bool" where
  "chain_ok M path =
     (distinct (map (host_of M) path) \<and> list_all (\<lambda>e. edges M e \<noteq> None) (hops path))"

text \<open>
  The delay and cost the search of \<open>MSG.py\<close> adds for the way from the source to the
  first host and from the last host to the destination, the totals of a path, and
  feasibility within the delay budget; \<open>feasible_bf\<close> is feasibility with the totals of
  \<open>brute-force_SFC_placement.py\<close>.
\<close>

definition ingress :: "msg \<Rightarrow> SFCRequest \<Rightarrow> substrate \<Rightarrow> vlabel list \<Rightarrow> int \<times> int" where
  "ingress M sfc Gp path =
     (if host_of M (hd path) \<noteq> src sfc \<and> reachable Gp (src sfc) (host_of M (hd path))
      then (sp_delay Gp (src sfc) (host_of M (hd path)), sp_cost Gp (src sfc) (host_of M (hd path)))
      else (0, 0))"

definition egress :: "msg \<Rightarrow> SFCRequest \<Rightarrow> substrate \<Rightarrow> vlabel list \<Rightarrow> int \<times> int" where
  "egress M sfc Gp path =
     (if host_of M (last path) \<noteq> dest sfc \<and> reachable Gp (host_of M (last path)) (dest sfc)
      then (sp_delay Gp (host_of M (last path)) (dest sfc),
            sp_cost Gp (host_of M (last path)) (dest sfc))
      else (0, 0))"

definition total_delay :: "msg \<Rightarrow> SFCRequest \<Rightarrow> substrate \<Rightarrow> vlabel list \<Rightarrow> int" where
  "total_delay M sfc Gp path =
     hop_delay M path + fst (ingress M sfc Gp path) + fst (egress M sfc Gp path)"

definition total_cost :: "msg \<Rightarrow> SFCRequest \<Rightarrow> substrate \<Rightarrow> vlabel list \<Rightarrow> int" where
  "total_cost M sfc Gp path =
     hop_cost M path + snd (ingress M sfc Gp path) + snd (egress M sfc Gp path)"

definition feasible :: "msg \<Rightarrow> SFCRequest \<Rightarrow> substrate \<Rightarrow> vlabel list \<Rightarrow> bool" where
  "feasible M sfc Gp path = (chain_ok M path \<and> total_delay M sfc Gp path \<le> max_delay sfc)"

definition feasible_bf :: "msg \<Rightarrow> SFCRequest \<Rightarrow> vlabel list \<Rightarrow> bool" where
  "feasible_bf M sfc path = (chain_ok M path \<and> hop_delay M path \<le> max_delay sfc)"

text \<open>
  What the search returns over an enumeration \<open>cands\<close> of candidates: \<open>None\<close> exactly
  when no candidate is feasible, otherwise the first of the feasible candidates of
  least cost, with its delay and cost.
\<close>

definition search_result ::
  "vlabel list list \<Rightarrow> (vlabel list \<Rightarrow> bool) \<Rightarrow> (vlabel list \<Rightarrow> int) \<Rightarrow> (vlabel list \<Rightarrow> int)
     \<Rightarrow> (vlabel list \<times> int \<times> int) option \<Rightarrow> bool" where
  "search_result cands feas dl cs r =
     ((r = None \<longleftrightarrow> (\<forall>p\<in>set cands. \<not> feas p))
      \<and> (\<forall>p d c. r = Some (p, d, c) \<longrightarrow>
            p \<in> set cands \<and> feas p \<and> d = dl p \<and> c = cs p
            \<and> (\<forall>q\<in>set cands. feas q \<longrightarrow> c \<le> cs q)
            \<and> (\<exists>i<length cands. cands ! i = p
                  \<and> (\<forall>j<i. feas (cands ! j) \<longrightarrow> c < cs (cands ! j)))))"

text \<open>An entry of \<open>paths\<close> whose total delay is within a budget.\<close>

definition within :: "int \<Rightarrow> (vlabel list \<times> int \<times> int) \<Rightarrow> bool" where
  "within d x = (fst (snd x) \<le> d)"

text \<open>
  The ledger \<open>run_simulation\<close> builds holds host \<open>i\<close> at index \<open>i\<close>; \<open>aligned\<close> says so.
  \<open>in_substrate\<close>: every host of the ledger is a node of the substrate.
  \<open>within_capacity\<close>: no host uses more CPU than it has. \<open>request_ok\<close>: the request
  has at least one stage and its endpoints are nodes of the substrate.
\<close>

definition aligned :: "PhysicalNode list \<Rightarrow> bool" where
  "aligned physical_nodes = (\<forall>i<length physical_nodes. node_id (physical_nodes ! i) = i)"

definition in_substrate :: "substrate \<Rightarrow> PhysicalNode list \<Rightarrow> bool" where
  "in_substrate Gp physical_nodes = (\<forall>n\<in>set physical_nodes. has_node Gp (node_id n))"

definition within_capacity :: "PhysicalNode list \<Rightarrow> bool" where
  "within_capacity physical_nodes = (\<forall>n\<in>set physical_nodes. used_cpu n \<le> cpu n)"

definition request_ok :: "substrate \<Rightarrow> SFCRequest \<Rightarrow> bool" where
  "request_ok Gp sfc = (stages sfc \<noteq> [] \<and> has_node Gp (src sfc) \<and> has_node Gp (dest sfc))"

text \<open>
  A chain of a graph built over the ledger: every vertex carries its host and a demand
  the host has the resources for, and no two vertices share a host.
\<close>

definition chain_of ::
  "msg \<Rightarrow> PhysicalNode list \<Rightarrow> vlabel list \<Rightarrow> bool" where
  "chain_of M physical_nodes path =
     (distinct (map (host_of M) path)
      \<and> (\<forall>v\<in>set path. \<exists>a. nodes M v = Some a \<and> physical a = fst v
             \<and> (\<exists>n\<in>set physical_nodes. node_id n = fst v \<and> has_resources n (vcpu a))))"

section \<open>Concrete instances\<close>

text \<open>A two-vertex graph and a ledger of two hosts, the second one already in use.\<close>

definition Mw :: msg where
  "Mw = add_node (add_node empty_msg (0, 0) \<lparr>physical = 0, stage = 0, vcpu = 2\<rparr>)
          (1, 1) \<lparr>physical = 1, stage = 1, vcpu = 1\<rparr>"

definition Lw :: "PhysicalNode list" where
  "Lw = [new_node 0 7, \<lparr>node_id = 1, cpu = 7, used_cpu = 3, activated = True\<rparr>]"

text \<open>
  A substrate of four nodes: 0, 1 and 2 are linked pairwise by links of delay 2 and
  cost 3, node 3 is isolated. A request of two stages, and a ledger of three hosts
  whose second host has one unit of CPU left.
\<close>

definition Gw :: substrate where
  "Gw = \<lparr>has_node = (\<lambda>n. n < 4), reachable = (\<lambda>u v. u < 3 \<and> v < 3),
          shortest_path = (\<lambda>u v. [u, v]), link_delay = (\<lambda>u v. 2), link_cost = (\<lambda>u v. 3)\<rparr>"

definition Rw :: SFCRequest where
  "Rw = \<lparr>sfc_id = 0, src = 0, dest = 2, stages = [2, 1], bw = 20, max_delay = 20\<rparr>"

definition Lw3 :: "PhysicalNode list" where
  "Lw3 = [new_node 0 7, \<lparr>node_id = 1, cpu = 7, used_cpu = 6, activated = True\<rparr>, new_node 2 7]"

text \<open>
  A graph of two stages over the hosts 0 and 1, with an edge in each direction between
  the stages, and its stage lists.
\<close>

definition Mc :: msg where
  "Mc = \<lparr>nodes = [(0, 0) \<mapsto> \<lparr>physical = 0, stage = 0, vcpu = 2\<rparr>,
                  (1, 0) \<mapsto> \<lparr>physical = 1, stage = 0, vcpu = 2\<rparr>,
                  (0, 1) \<mapsto> \<lparr>physical = 0, stage = 1, vcpu = 1\<rparr>,
                  (1, 1) \<mapsto> \<lparr>physical = 1, stage = 1, vcpu = 1\<rparr>],
          edges = [((0, 0), (1, 1)) \<mapsto> \<lparr>delay = 2, cost = 3\<rparr>,
                   ((1, 0), (0, 1)) \<mapsto> \<lparr>delay = 2, cost = 3\<rparr>]\<rparr>"

definition snc :: "vlabel list list" where
  "snc = [[(0, 0), (1, 0)], [(0, 1), (1, 1)]]"

text \<open>
  The graph and stage lists \<open>construct_msg\<close> builds for the request \<open>Rw\<close> over the
  ledger \<open>Lw3\<close>, the ledger after the reservation of the chain on the hosts 0 and 2,
  and the graph and stage lists built over that ledger with these two hosts excluded.
\<close>

definition MAw :: msg where
  "MAw = fst (projr (construct_msg Gw Rw Lw3 {}))"

definition snAw :: "vlabel list list" where
  "snAw = snd (projr (construct_msg Gw Rw Lw3 {}))"

definition Lw3a :: "PhysicalNode list" where
  "Lw3a = [\<lparr>node_id = 0, cpu = 7, used_cpu = 2, activated = True\<rparr>,
           \<lparr>node_id = 1, cpu = 7, used_cpu = 6, activated = True\<rparr>,
           \<lparr>node_id = 2, cpu = 7, used_cpu = 1, activated = True\<rparr>]"

definition MBw :: msg where
  "MBw = fst (projr (construct_msg Gw Rw Lw3a {0, 2}))"

definition snBw :: "vlabel list list" where
  "snBw = snd (projr (construct_msg Gw Rw Lw3a {0, 2}))"

text \<open>The request \<open>Rw\<close> with the isolated node 3 as its source.\<close>

definition Ru :: SFCRequest where
  "Ru = Rw\<lparr>src := 3\<rparr>"

text \<open>
  A substrate of four nodes linked pairwise by links of delay 2 and cost 3, a fresh
  ledger of four hosts with 7 units of CPU each, a request whose demands exceed every
  capacity, and a request whose delay budget no chain meets.
\<close>

definition G4 :: substrate where
  "G4 = \<lparr>has_node = (\<lambda>n. n < 4), reachable = (\<lambda>u v. True),
          shortest_path = (\<lambda>u v. [u, v]), link_delay = (\<lambda>u v. 2), link_cost = (\<lambda>u v. 3)\<rparr>"

definition L4 :: "PhysicalNode list" where
  "L4 = map (\<lambda>i. new_node i 7) [0..<4]"

definition Rb :: SFCRequest where
  "Rb = Rw\<lparr>stages := [8, 9]\<rparr>"

definition Rt :: SFCRequest where
  "Rt = Rw\<lparr>max_delay := 1\<rparr>"

text \<open>
  The graph and stage lists built for the request \<open>Rb\<close>, whose demands no host can
  meet, and for the request \<open>Rt\<close>, whose delay budget no chain meets.
\<close>

definition MRb :: msg where
  "MRb = fst (projr (construct_msg G4 Rb L4 {}))"

definition snRb :: "vlabel list list" where
  "snRb = snd (projr (construct_msg G4 Rb L4 {}))"

definition MRt :: msg where
  "MRt = fst (projr (construct_msg G4 Rt L4 {}))"

definition snRt :: "vlabel list list" where
  "snRt = snd (projr (construct_msg G4 Rt L4 {}))"

text \<open>
  A substrate of six nodes linked pairwise by links of delay 2 and cost 3, and the graph
  and stage lists built for the request \<open>Rw\<close> over the fresh ledger \<open>L4\<close>.
\<close>

definition G6 :: substrate where
  "G6 = \<lparr>has_node = (\<lambda>n. n < 6), reachable = (\<lambda>u v. True),
          shortest_path = (\<lambda>u v. [u, v]), link_delay = (\<lambda>u v. 2), link_cost = (\<lambda>u v. 3)\<rparr>"

definition MRw :: msg where
  "MRw = fst (projr (construct_msg G4 Rw L4 {}))"

definition snRw :: "vlabel list list" where
  "snRw = snd (projr (construct_msg G4 Rw L4 {}))"

text \<open>
  The graph and stage lists built for the request \<open>Rw\<close> over the fresh ledger \<open>L4\<close>
  with the hosts 0 and 1 excluded.
\<close>

definition MRwb :: msg where
  "MRwb = fst (projr (construct_msg G4 Rw L4 {0, 1}))"

definition snRwb :: "vlabel list list" where
  "snRwb = snd (projr (construct_msg G4 Rw L4 {0, 1}))"

text \<open>
  The graph and stage lists built for the request \<open>Rw\<close> over the ledger \<open>Lw3\<close> with the
  hosts 0 and 1 excluded: host 2 is the one candidate of either stage.
\<close>

definition MAwb :: msg where
  "MAwb = fst (projr (construct_msg Gw Rw Lw3 {0, 1}))"

definition snAwb :: "vlabel list list" where
  "snAwb = snd (projr (construct_msg Gw Rw Lw3 {0, 1}))"

text \<open>
  A substrate of fifteen nodes of which the nodes 0 to 3 are linked pairwise by links
  of delay 2 and cost 3, and the graphs and stage lists built for the request \<open>Rw\<close>
  over the ledger of \<open>simulate_with_msg_and_brute\<close>, without exclusion and with the
  hosts 0 and 1 excluded.
\<close>

definition G15 :: substrate where
  "G15 = \<lparr>has_node = (\<lambda>n. n < 15), reachable = (\<lambda>u v. u < 4 \<and> v < 4),
          shortest_path = (\<lambda>u v. [u, v]), link_delay = (\<lambda>u v. 2), link_cost = (\<lambda>u v. 3)\<rparr>"

definition MFa :: msg where
  "MFa = fst (projr (construct_msg G15 Rw fresh_nodes_bf {}))"

definition snFa :: "vlabel list list" where
  "snFa = snd (projr (construct_msg G15 Rw fresh_nodes_bf {}))"

definition MFb :: msg where
  "MFb = fst (projr (construct_msg G15 Rw fresh_nodes_bf {0, 1}))"

definition snFb :: "vlabel list list" where
  "snFb = snd (projr (construct_msg G15 Rw fresh_nodes_bf {0, 1}))"

section \<open>Properties of the reservation\<close>

lemma reserve_fields [simp]:
  "node_id (reserve n r) = node_id n" "cpu (reserve n r) = cpu n"
  "activated (reserve n r) = True" "used_cpu (reserve n r) = used_cpu n + r"
  by (simp_all add: reserve_def Let_def)

text \<open>
  The loop of \<open>reserve_resources\<close> in closed form, from any ledger and any running
  cost: a vertex is charged the activation when its host was neither activated before
  the loop nor the host of an earlier vertex of the path.
\<close>

lemma reserve_loop_closed:
  assumes "\<forall>l\<in>set path. \<exists>a. nodes M l = Some a \<and> physical a < length pn"
  shows "\<exists>pn'. reserve_loop path M pn extra = Inr
     (extra + (\<Sum>k<length path.
         (if activated (pn ! host_of M (path ! k)) \<or> host_of M (path ! k) \<in> host_of M ` set (take k path)
          then 0 else NODE_ACTIVATION_COST) + demand_of M (path ! k) * PE_DEPLOY_UNIT_COST), pn')
     \<and> length pn' = length pn
     \<and> (\<forall>i<length pn. node_id (pn' ! i) = node_id (pn ! i) \<and> cpu (pn' ! i) = cpu (pn ! i)
          \<and> activated (pn' ! i) = (activated (pn ! i) \<or> i \<in> host_of M ` set path)
          \<and> used_cpu (pn' ! i) = used_cpu (pn ! i) + sum_list (map (demand_of M) (filter (\<lambda>l. host_of M l = i) path)))"
  using assms
proof (induction path arbitrary: pn extra)
  case Nil
  then show ?case by simp
next
  case (Cons l rest)
  from Cons.prems obtain a where a: "nodes M l = Some a" "physical a < length pn" by auto
  let ?h = "physical a"
  let ?pn1 = "pn[?h := reserve (pn ! ?h) (vcpu a)]"
  let ?e1 = "(if \<not> activated (pn ! ?h) then extra + NODE_ACTIVATION_COST else extra) + vcpu a * PE_DEPLOY_UNIT_COST"
  have step: "reserve_loop (l # rest) M pn extra = reserve_loop rest M ?pn1 ?e1"
    using a by (simp add: physical_of_def cpu_of_def Let_def)
  have pre: "\<forall>l\<in>set rest. \<exists>a. nodes M l = Some a \<and> physical a < length ?pn1"
    using Cons.prems by simp
  from Cons.IH[OF pre, of ?e1] obtain pn' where
    r: "reserve_loop rest M ?pn1 ?e1 = Inr
     (?e1 + (\<Sum>k<length rest.
         (if activated (?pn1 ! host_of M (rest ! k)) \<or> host_of M (rest ! k) \<in> host_of M ` set (take k rest)
          then 0 else NODE_ACTIVATION_COST) + demand_of M (rest ! k) * PE_DEPLOY_UNIT_COST), pn')"
    and len: "length pn' = length ?pn1"
    and fields: "\<forall>i<length ?pn1. node_id (pn' ! i) = node_id (?pn1 ! i) \<and> cpu (pn' ! i) = cpu (?pn1 ! i)
          \<and> activated (pn' ! i) = (activated (?pn1 ! i) \<or> i \<in> host_of M ` set rest)
          \<and> used_cpu (pn' ! i) = used_cpu (?pn1 ! i) + sum_list (map (demand_of M) (filter (\<lambda>l. host_of M l = i) rest))"
    by blast
  have hl: "host_of M l = ?h" "demand_of M l = vcpu a" using a by (simp_all add: host_of_def demand_of_def)
  have hrest: "\<And>k. k < length rest \<Longrightarrow> host_of M (rest ! k) < length pn"
    using Cons.prems by (auto simp: host_of_def) (metis nth_mem option.sel)
  have act1: "\<And>x. x < length pn \<Longrightarrow> activated (?pn1 ! x) = (activated (pn ! x) \<or> x = ?h)"
    using a by (auto simp: nth_list_update)
  have sum_eq: "(\<Sum>k<length rest.
         (if activated (?pn1 ! host_of M (rest ! k)) \<or> host_of M (rest ! k) \<in> host_of M ` set (take k rest)
          then 0 else NODE_ACTIVATION_COST) + demand_of M (rest ! k) * PE_DEPLOY_UNIT_COST)
     = (\<Sum>k<length rest.
         (if activated (pn ! host_of M ((l # rest) ! Suc k)) \<or> host_of M ((l # rest) ! Suc k) \<in> host_of M ` set (take (Suc k) (l # rest))
          then 0 else NODE_ACTIVATION_COST) + demand_of M ((l # rest) ! Suc k) * PE_DEPLOY_UNIT_COST)"
    by (rule sum.cong) (auto simp: act1 hrest hl)
  have cost: "?e1 + (\<Sum>k<length rest.
         (if activated (?pn1 ! host_of M (rest ! k)) \<or> host_of M (rest ! k) \<in> host_of M ` set (take k rest)
          then 0 else NODE_ACTIVATION_COST) + demand_of M (rest ! k) * PE_DEPLOY_UNIT_COST)
      = extra + (\<Sum>k<length (l # rest).
         (if activated (pn ! host_of M ((l # rest) ! k)) \<or> host_of M ((l # rest) ! k) \<in> host_of M ` set (take k (l # rest))
          then 0 else NODE_ACTIVATION_COST) + demand_of M ((l # rest) ! k) * PE_DEPLOY_UNIT_COST)"
    unfolding sum_eq by (simp add: sum.lessThan_Suc_shift hl del: sum.lessThan_Suc)
  have fin: "\<forall>i<length pn. node_id (pn' ! i) = node_id (pn ! i) \<and> cpu (pn' ! i) = cpu (pn ! i)
          \<and> activated (pn' ! i) = (activated (pn ! i) \<or> i \<in> host_of M ` set (l # rest))
          \<and> used_cpu (pn' ! i) = used_cpu (pn ! i) + sum_list (map (demand_of M) (filter (\<lambda>l. host_of M l = i) (l # rest)))"
    using fields a by (auto simp: nth_list_update hl)
  show ?case
    unfolding step r cost using len fin by simp
qed

text \<open>
  Claim C6. For a path whose vertices are nodes of the graph with hosts inside the
  ledger, \<open>reserve_resources\<close> returns the sum, over the vertices of the path, of the
  activation charge (when the vertex's host, the ledger entry at the vertex's physical
  id, is not activated at the moment the vertex is visited: not activated before the
  call and not the host of an earlier vertex) plus the demand times the deployment
  charge. In the ledger it returns, every host of the path is activated and its
  \<open>used_cpu\<close> has grown by the demands of the vertices placed on it; ids, capacities
  and the other hosts are as before.
\<close>

theorem reserve_resources_charges:
  assumes "\<forall>l\<in>set path. \<exists>a. nodes MSG l = Some a \<and> physical a < length physical_nodes"
  shows "\<exists>nodes'. reserve_resources path MSG physical_nodes = Inr
     ((\<Sum>k<length path.
         (if activated (physical_nodes ! host_of MSG (path ! k))
             \<or> host_of MSG (path ! k) \<in> host_of MSG ` set (take k path)
          then 0 else NODE_ACTIVATION_COST)
         + demand_of MSG (path ! k) * PE_DEPLOY_UNIT_COST), nodes')
     \<and> length nodes' = length physical_nodes
     \<and> (\<forall>i<length physical_nodes.
          node_id (nodes' ! i) = node_id (physical_nodes ! i)
          \<and> cpu (nodes' ! i) = cpu (physical_nodes ! i)
          \<and> activated (nodes' ! i) = (activated (physical_nodes ! i) \<or> i \<in> host_of MSG ` set path)
          \<and> used_cpu (nodes' ! i) = used_cpu (physical_nodes ! i)
               + sum_list (map (demand_of MSG) (filter (\<lambda>l. host_of MSG l = i) path)))"
  using reserve_loop_closed[OF assms, of 0] by (simp add: reserve_resources_def)

theorem reserve_resources_charges_witness:
  "\<exists>nodes'. reserve_resources [(0, 0), (1, 1)] Mw Lw = Inr (5, nodes')
     \<and> used_cpu (nodes' ! 0) = 2 \<and> used_cpu (nodes' ! 1) = 4
     \<and> activated (nodes' ! 0) \<and> activated (nodes' ! 1)"
proof -
  have h: "\<forall>l\<in>set [(0, 0), (1, 1)]. \<exists>a. nodes Mw l = Some a \<and> physical a < length Lw"
    by (simp add: Mw_def Lw_def add_node_def empty_msg_def)
  from reserve_resources_charges[OF h] obtain nodes' where
    r: "reserve_resources [(0, 0), (1, 1)] Mw Lw = Inr
     ((\<Sum>k<length [(0::nat, 0::nat), (1, 1)].
         (if activated (Lw ! host_of Mw ([(0, 0), (1, 1)] ! k))
             \<or> host_of Mw ([(0, 0), (1, 1)] ! k) \<in> host_of Mw ` set (take k [(0, 0), (1, 1)])
          then 0 else NODE_ACTIVATION_COST)
         + demand_of Mw ([(0, 0), (1, 1)] ! k) * PE_DEPLOY_UNIT_COST), nodes')"
    and f: "\<forall>i<length Lw.
          node_id (nodes' ! i) = node_id (Lw ! i)
          \<and> cpu (nodes' ! i) = cpu (Lw ! i)
          \<and> activated (nodes' ! i) = (activated (Lw ! i) \<or> i \<in> host_of Mw ` set [(0, 0), (1, 1)])
          \<and> used_cpu (nodes' ! i) = used_cpu (Lw ! i)
               + sum_list (map (demand_of Mw) (filter (\<lambda>l. host_of Mw l = i) [(0, 0), (1, 1)]))"
    by blast
  have c: "(\<Sum>k<length [(0::nat, 0::nat), (1, 1)].
         (if activated (Lw ! host_of Mw ([(0, 0), (1, 1)] ! k))
             \<or> host_of Mw ([(0, 0), (1, 1)] ! k) \<in> host_of Mw ` set (take k [(0, 0), (1, 1)])
          then 0 else NODE_ACTIVATION_COST)
         + demand_of Mw ([(0, 0), (1, 1)] ! k) * PE_DEPLOY_UNIT_COST) = 5"
    by (simp add: Mw_def Lw_def add_node_def empty_msg_def host_of_def demand_of_def new_node_def
        NODE_ACTIVATION_COST_def PE_DEPLOY_UNIT_COST_def)
  have f0: "used_cpu (nodes' ! 0) = 2 \<and> activated (nodes' ! 0)"
    using f[rule_format, of 0]
    by (simp add: Mw_def Lw_def add_node_def empty_msg_def host_of_def demand_of_def new_node_def)
  have f1: "used_cpu (nodes' ! 1) = 4 \<and> activated (nodes' ! 1)"
    using f[rule_format, of 1]
    by (simp add: Mw_def Lw_def add_node_def empty_msg_def host_of_def demand_of_def new_node_def)
  show ?thesis using r c f0 f1 by simp
qed

section \<open>Properties of the construction\<close>

lemma candidates_Nil [simp]: "candidates [] used s d = []"
  by (simp add: candidates_def)

lemma candidates_Cons:
  "candidates (n # ns) used s d =
     (if has_resources n d \<and> node_id n \<notin> used then (node_id n, s) # candidates ns used s d
      else candidates ns used s d)"
  by (simp add: candidates_def)

lemma snd_candidates: "v \<in> set (candidates pn used s d) \<Longrightarrow> snd v = s"
  by (auto simp: candidates_def)

lemma stage_loop_snd:
  "snd (stage_loop s d used pn M cur) = cur @ candidates pn used s d"
  by (induction pn arbitrary: M cur) (simp_all add: candidates_Cons Let_def)

lemma stage_loop_edges:
  "edges (fst (stage_loop s d used pn M cur)) = edges M"
  by (induction pn arbitrary: M cur) (simp_all add: add_node_def Let_def)

lemma stage_loop_nodes:
  "nodes (fst (stage_loop s d used pn M cur)) v =
     (if v \<in> set (candidates pn used s d)
      then Some \<lparr>physical = fst v, stage = s, vcpu = d\<rparr> else nodes M v)"
  by (induction pn arbitrary: M cur) (auto simp: candidates_Cons add_node_def Let_def)

lemma stages_loop_snd:
  "snd (stages_loop idx ds used pn M sn) =
     sn @ map (\<lambda>k. candidates pn used (idx + k) (ds ! k)) [0..<length ds]"
proof (induction ds arbitrary: idx M sn)
  case Nil
  then show ?case by simp
next
  case (Cons d ds)
  have m: "map (\<lambda>k. candidates pn used (idx + k) ((d # ds) ! k)) [0..<length (d # ds)]
     = candidates pn used idx d # map (\<lambda>k. candidates pn used (Suc idx + k) (ds ! k)) [0..<length ds]"
  proof -
    have "[0..<length (d # ds)] = 0 # map Suc [0..<length ds]"
      by (simp add: upt_conv_Cons map_Suc_upt del: upt_Suc)
    then show ?thesis by (simp add: comp_def del: upt_Suc)
  qed
  obtain M1 cs where r: "stage_loop idx d used pn M [] = (M1, cs)" by force
  have cs: "cs = candidates pn used idx d"
    using stage_loop_snd[of idx d used pn M "[]"] r by simp
  show ?case unfolding m by (simp add: r cs Cons.IH)
qed

lemma stages_loop_edges:
  "edges (fst (stages_loop idx ds used pn M sn)) = edges M"
proof (induction ds arbitrary: idx M sn)
  case Nil
  then show ?case by simp
next
  case (Cons d ds)
  obtain M1 cs where r: "stage_loop idx d used pn M [] = (M1, cs)" by force
  have "edges M1 = edges M" using stage_loop_edges[of idx d used pn M "[]"] r by simp
  then show ?case by (simp add: r Cons.IH)
qed

lemma stages_loop_nodes:
  "nodes (fst (stages_loop idx ds used pn M sn)) v =
     (if idx \<le> snd v \<and> snd v < idx + length ds
          \<and> v \<in> set (candidates pn used (snd v) (ds ! (snd v - idx)))
      then Some \<lparr>physical = fst v, stage = snd v, vcpu = ds ! (snd v - idx)\<rparr>
      else nodes M v)"
proof (induction ds arbitrary: idx M sn)
  case Nil
  then show ?case by auto
next
  case (Cons d ds)
  obtain M1 cs where r: "stage_loop idx d used pn M [] = (M1, cs)" by force
  have M1: "nodes M1 v = (if v \<in> set (candidates pn used idx d)
      then Some \<lparr>physical = fst v, stage = idx, vcpu = d\<rparr> else nodes M v)"
    using stage_loop_nodes[of idx d used pn M "[]" v] r by simp
  have step: "nodes (fst (stages_loop idx (d # ds) used pn M sn)) v =
     (if Suc idx \<le> snd v \<and> snd v < Suc idx + length ds
          \<and> v \<in> set (candidates pn used (snd v) (ds ! (snd v - Suc idx)))
      then Some \<lparr>physical = fst v, stage = snd v, vcpu = ds ! (snd v - Suc idx)\<rparr>
      else nodes M1 v)"
    by (simp add: r Cons.IH)
  consider "snd v < idx" | "snd v = idx" | "snd v > idx" by linarith
  then show ?case
  proof cases
    case 1
    then show ?thesis unfolding step M1 using snd_candidates[of v pn used idx d] by auto
  next
    case 2
    then show ?thesis unfolding step M1 by auto
  next
    case 3
    then have j: "snd v - idx = Suc (snd v - Suc idx)" by simp
    from 3 show ?thesis unfolding step M1 using snd_candidates[of v pn used idx d]
      by (auto simp: j)
  qed
qed

lemma same_nodes:
  assumes "nodes M' = nodes M"
  shows "host_of M' = host_of M" "linked Gp M' = linked Gp M" "link_attrs Gp M' = link_attrs Gp M"
    "known Gp M' = known Gp M" "physical_of M' = physical_of M"
  using assms by (simp_all add: host_of_def linked_def link_attrs_def known_def physical_of_def fun_eq_iff)

lemma known_physical_of: "known Gp M v \<Longrightarrow> physical_of M v = Inr (host_of M v)"
  by (auto simp: known_def physical_of_def host_of_def)

lemma edge_loop_v_char:
  assumes "known Gp M u" "\<forall>v\<in>set vs. known Gp M v"
  shows "\<exists>M'. edge_loop_v Gp u vs M = Inr M' \<and> nodes M' = nodes M
     \<and> (\<forall>x y. edges M' (x, y) =
           (if x = u \<and> y \<in> set vs \<and> linked Gp M u y then Some (link_attrs Gp M u y)
            else edges M (x, y)))"
  using assms
proof (induction vs arbitrary: M)
  case Nil
  then show ?case by simp
next
  case (Cons v vs)
  have pu: "physical_of M u = Inr (host_of M u)" and pv: "physical_of M v = Inr (host_of M v)"
    using Cons.prems known_physical_of[of Gp M u] known_physical_of[of Gp M v] by simp_all
  have hp: "has_path Gp (host_of M u) (host_of M v) = Inr (reachable Gp (host_of M u) (host_of M v))"
    using Cons.prems by (simp add: has_path_def known_def)
  show ?case
  proof (cases "linked Gp M u v")
    case True
    let ?M1 = "add_edge M u v \<lparr>delay = sp_delay Gp (host_of M u) (host_of M v),
                                  cost = sp_cost Gp (host_of M u) (host_of M v)\<rparr>"
    have n1: "nodes ?M1 = nodes M" by (simp add: add_edge_def)
    have step: "edge_loop_v Gp u (v # vs) M = edge_loop_v Gp u vs ?M1"
      using True by (simp add: pu pv hp linked_def)
    have k1: "known Gp ?M1 u" "\<forall>v\<in>set vs. known Gp ?M1 v"
      using Cons.prems by (simp_all add: same_nodes[OF n1])
    from Cons.IH[OF k1] obtain M' where
      r: "edge_loop_v Gp u vs ?M1 = Inr M'" and n: "nodes M' = nodes ?M1"
      and e: "\<forall>x y. edges M' (x, y) =
           (if x = u \<and> y \<in> set vs \<and> linked Gp ?M1 u y then Some (link_attrs Gp ?M1 u y)
            else edges ?M1 (x, y))" by blast
    have e1: "\<And>x y. edges ?M1 (x, y) =
           (if x = u \<and> y = v then Some (link_attrs Gp M u v) else edges M (x, y))"
      by (simp add: add_edge_def link_attrs_def)
    have e': "\<forall>x y. edges M' (x, y) =
           (if x = u \<and> y \<in> set vs \<and> linked Gp M u y then Some (link_attrs Gp M u y)
            else edges ?M1 (x, y))"
      using e by (simp add: same_nodes[OF n1])
    have "\<forall>x y. edges M' (x, y) =
           (if x = u \<and> y \<in> set (v # vs) \<and> linked Gp M u y then Some (link_attrs Gp M u y)
            else edges M (x, y))"
      using True by (auto simp: e' e1)
    then show ?thesis using r n n1 step by simp
  next
    case False
    have step: "edge_loop_v Gp u (v # vs) M = edge_loop_v Gp u vs M"
      using False by (auto simp: pu pv hp linked_def)
    from Cons.IH[of M] Cons.prems obtain M' where
      r: "edge_loop_v Gp u vs M = Inr M'" and n: "nodes M' = nodes M"
      and e: "\<forall>x y. edges M' (x, y) =
           (if x = u \<and> y \<in> set vs \<and> linked Gp M u y then Some (link_attrs Gp M u y)
            else edges M (x, y))" by auto
    have "\<forall>x y. edges M' (x, y) =
           (if x = u \<and> y \<in> set (v # vs) \<and> linked Gp M u y then Some (link_attrs Gp M u y)
            else edges M (x, y))"
      using False by (auto simp: e)
    then show ?thesis using r n step by simp
  qed
qed

lemma edge_loop_u_char:
  assumes "\<forall>u\<in>set us. known Gp M u" "\<forall>v\<in>set vs. known Gp M v"
  shows "\<exists>M'. edge_loop_u Gp us vs M = Inr M' \<and> nodes M' = nodes M
     \<and> (\<forall>x y. edges M' (x, y) =
           (if x \<in> set us \<and> y \<in> set vs \<and> linked Gp M x y then Some (link_attrs Gp M x y)
            else edges M (x, y)))"
  using assms
proof (induction us arbitrary: M)
  case Nil
  then show ?case by simp
next
  case (Cons u us)
  from edge_loop_v_char[of Gp M u vs] Cons.prems obtain M1 where
    r1: "edge_loop_v Gp u vs M = Inr M1" and n1: "nodes M1 = nodes M"
    and e1: "\<forall>x y. edges M1 (x, y) =
           (if x = u \<and> y \<in> set vs \<and> linked Gp M u y then Some (link_attrs Gp M u y)
            else edges M (x, y))" by auto
  have k1: "\<forall>u\<in>set us. known Gp M1 u" "\<forall>v\<in>set vs. known Gp M1 v"
    using Cons.prems by (simp_all add: same_nodes[OF n1])
  from Cons.IH[OF k1] obtain M' where
    r: "edge_loop_u Gp us vs M1 = Inr M'" and n: "nodes M' = nodes M1"
    and e: "\<forall>x y. edges M' (x, y) =
           (if x \<in> set us \<and> y \<in> set vs \<and> linked Gp M1 x y then Some (link_attrs Gp M1 x y)
            else edges M1 (x, y))" by blast
  have "\<forall>x y. edges M' (x, y) =
           (if x \<in> set (u # us) \<and> y \<in> set vs \<and> linked Gp M x y then Some (link_attrs Gp M x y)
            else edges M (x, y))"
    by (auto simp: e e1 same_nodes[OF n1])
  then show ?case using r r1 n n1 by simp
qed

lemma adjacent_Cons:
  "adjacent (us # vs # rest) x y = ((x \<in> set us \<and> y \<in> set vs) \<or> adjacent (vs # rest) x y)"
proof -
  have "(\<exists>i. Suc i < length (us # vs # rest) \<and> x \<in> set ((us # vs # rest) ! i)
             \<and> y \<in> set ((us # vs # rest) ! Suc i))
      = ((x \<in> set us \<and> y \<in> set vs) \<or>
         (\<exists>i. Suc i < length (vs # rest) \<and> x \<in> set ((vs # rest) ! i) \<and> y \<in> set ((vs # rest) ! Suc i)))"
    (is "?L = ?R")
  proof
    assume ?L
    then obtain i where i: "Suc i < length (us # vs # rest)" "x \<in> set ((us # vs # rest) ! i)"
      "y \<in> set ((us # vs # rest) ! Suc i)" by blast
    show ?R
    proof (cases i)
      case 0
      with i show ?thesis by simp
    next
      case (Suc j)
      with i have "Suc j < length (vs # rest) \<and> x \<in> set ((vs # rest) ! j) \<and> y \<in> set ((vs # rest) ! Suc j)"
        by simp
      then show ?thesis by blast
    qed
  next
    assume ?R
    then show ?L
    proof
      assume "x \<in> set us \<and> y \<in> set vs"
      then have "Suc 0 < length (us # vs # rest) \<and> x \<in> set ((us # vs # rest) ! 0)
        \<and> y \<in> set ((us # vs # rest) ! Suc 0)" by simp
      then show ?L by blast
    next
      assume "\<exists>i. Suc i < length (vs # rest) \<and> x \<in> set ((vs # rest) ! i) \<and> y \<in> set ((vs # rest) ! Suc i)"
      then obtain i where "Suc i < length (vs # rest)" "x \<in> set ((vs # rest) ! i)"
        "y \<in> set ((vs # rest) ! Suc i)" by blast
      then have "Suc (Suc i) < length (us # vs # rest) \<and> x \<in> set ((us # vs # rest) ! Suc i)
        \<and> y \<in> set ((us # vs # rest) ! Suc (Suc i))" by simp
      then show ?L by blast
    qed
  qed
  then show ?thesis by (simp add: adjacent_def)
qed

lemma adjacent_short [simp]: "adjacent [] x y = False" "adjacent [us] x y = False"
  by (simp_all add: adjacent_def)

lemma edge_loop_i_char:
  assumes "\<forall>st\<in>set sn. \<forall>v\<in>set st. known Gp M v"
  shows "\<exists>M'. edge_loop_i Gp sn M = Inr M' \<and> nodes M' = nodes M
     \<and> (\<forall>x y. edges M' (x, y) =
           (if adjacent sn x y \<and> linked Gp M x y then Some (link_attrs Gp M x y)
            else edges M (x, y)))"
  using assms
proof (induction Gp sn M rule: edge_loop_i.induct)
  case (1 Gp us vs rest M)
  from edge_loop_u_char[of us Gp M vs] "1.prems" obtain M1 where
    r1: "edge_loop_u Gp us vs M = Inr M1" and n1: "nodes M1 = nodes M"
    and e1: "\<forall>x y. edges M1 (x, y) =
           (if x \<in> set us \<and> y \<in> set vs \<and> linked Gp M x y then Some (link_attrs Gp M x y)
            else edges M (x, y))" by auto
  have k1: "\<forall>st\<in>set (vs # rest). \<forall>v\<in>set st. known Gp M1 v"
    using "1.prems" by (simp add: same_nodes[OF n1])
  from "1.IH"[OF r1 k1] obtain M' where
    r: "edge_loop_i Gp (vs # rest) M1 = Inr M'" and n: "nodes M' = nodes M1"
    and e: "\<forall>x y. edges M' (x, y) =
           (if adjacent (vs # rest) x y \<and> linked Gp M1 x y then Some (link_attrs Gp M1 x y)
            else edges M1 (x, y))" by blast
  have "\<forall>x y. edges M' (x, y) =
           (if adjacent (us # vs # rest) x y \<and> linked Gp M x y then Some (link_attrs Gp M x y)
            else edges M (x, y))"
    by (auto simp: e e1 same_nodes[OF n1] adjacent_Cons)
  then show ?case using r r1 n n1 by simp
qed simp_all

lemma candidates_host: "v \<in> set (candidates pn used s d) \<Longrightarrow> \<exists>n\<in>set pn. node_id n = fst v"
  by (auto simp: candidates_def)

lemma in_stage_lists:
  "st \<in> set (stage_lists sfc pn used) \<Longrightarrow> v \<in> set st \<Longrightarrow>
     snd v < length (stages sfc) \<and> v \<in> set (candidates pn used (snd v) (stages sfc ! snd v))"
  by (auto simp: stage_lists_def dest: snd_candidates)

lemma construct_msg_char:
  assumes "\<forall>n\<in>set pn. has_node Gp (node_id n)"
  shows "\<exists>M. construct_msg Gp sfc pn used = Inr (M, stage_lists sfc pn used)
     \<and> (\<forall>v. nodes M v =
           (if snd v < length (stages sfc)
               \<and> v \<in> set (candidates pn used (snd v) (stages sfc ! snd v))
            then Some \<lparr>physical = fst v, stage = snd v, vcpu = stages sfc ! snd v\<rparr> else None))
     \<and> (\<forall>x y. edges M (x, y) =
           (if adjacent (stage_lists sfc pn used) x y \<and> fst x \<noteq> fst y \<and> reachable Gp (fst x) (fst y)
            then Some \<lparr>delay = sp_delay Gp (fst x) (fst y), cost = sp_cost Gp (fst x) (fst y)\<rparr>
            else None))"
proof -
  obtain M0 sn where r0: "stages_loop 0 (stages sfc) used pn empty_msg [] = (M0, sn)" by force
  have sn: "sn = stage_lists sfc pn used"
    using stages_loop_snd[of 0 "stages sfc" used pn empty_msg "[]"] r0
    by (simp add: stage_lists_def)
  have e0: "edges M0 = (\<lambda>e. None)"
    using stages_loop_edges[of 0 "stages sfc" used pn empty_msg "[]"] r0
    by (simp add: empty_msg_def)
  have n0: "\<And>v. nodes M0 v =
           (if snd v < length (stages sfc)
               \<and> v \<in> set (candidates pn used (snd v) (stages sfc ! snd v))
            then Some \<lparr>physical = fst v, stage = snd v, vcpu = stages sfc ! snd v\<rparr> else None)"
    using stages_loop_nodes[of 0 "stages sfc" used pn empty_msg "[]"] r0
    by (simp add: empty_msg_def)
  have h0: "\<And>st v. st \<in> set sn \<Longrightarrow> v \<in> set st \<Longrightarrow> nodes M0 v \<noteq> None \<and> host_of M0 v = fst v"
    using in_stage_lists[of _ sfc pn used] by (simp add: sn n0 host_of_def)
  have k0: "\<forall>st\<in>set sn. \<forall>v\<in>set st. known Gp M0 v"
  proof (intro ballI)
    fix st v assume a: "st \<in> set sn" "v \<in> set st"
    then have "v \<in> set (candidates pn used (snd v) (stages sfc ! snd v))"
      using in_stage_lists[of st sfc pn used v] by (simp add: sn)
    then obtain n where "n \<in> set pn" "node_id n = fst v" using candidates_host by blast
    then have "has_node Gp (fst v)" using assms by auto
    then show "known Gp M0 v" using h0[OF a] by (simp add: known_def)
  qed
  from edge_loop_i_char[OF k0] obtain M where
    r: "edge_loop_i Gp sn M0 = Inr M" and n: "nodes M = nodes M0"
    and e: "\<forall>x y. edges M (x, y) =
           (if adjacent sn x y \<and> linked Gp M0 x y then Some (link_attrs Gp M0 x y)
            else edges M0 (x, y))" by blast
  have adj: "\<And>x y. adjacent sn x y \<Longrightarrow> host_of M0 x = fst x \<and> host_of M0 y = fst y"
  proof -
    fix x y assume "adjacent sn x y"
    then obtain i where i: "Suc i < length sn" "x \<in> set (sn ! i)" "y \<in> set (sn ! Suc i)"
      by (auto simp: adjacent_def)
    then have "sn ! i \<in> set sn" "sn ! Suc i \<in> set sn" by simp_all
    then show "host_of M0 x = fst x \<and> host_of M0 y = fst y" using h0 i by blast
  qed
  have e': "\<forall>x y. edges M (x, y) =
           (if adjacent sn x y \<and> fst x \<noteq> fst y \<and> reachable Gp (fst x) (fst y)
            then Some \<lparr>delay = sp_delay Gp (fst x) (fst y), cost = sp_cost Gp (fst x) (fst y)\<rparr>
            else None)"
    using adj by (auto simp: e e0 linked_def link_attrs_def)
  have "construct_msg Gp sfc pn used = Inr (M, sn)"
    by (simp add: construct_msg_def r0 r)
  then show ?thesis using n n0 e' sn by auto
qed

lemma place_request_reads_ledger:
  assumes "place_request Gp pn sfc = Inr (pn', res, h)"
  shows "h \<noteq> [] \<and> hd h = pn \<and> (3 < length h \<longrightarrow> h ! 3 = h ! 2)"
  using assms unfolding place_request_def
  by (auto simp: Let_def split: sum.splits if_splits option.splits prod.splits)

text \<open>
  Claim C4. When every host of the ledger is a node of the substrate,
  \<open>construct_msg\<close> returns a graph and one candidate list per stage. The list of
  stage \<open>s\<close> holds, in ledger order, exactly the hosts with
  \<open>cpu - used_cpu \<ge> stages[s]\<close> whose id is not excluded, each as a vertex of the graph
  with its host, stage and demand. The graph has an edge from \<open>u\<close> to \<open>v\<close> exactly when
  \<open>u\<close> and \<open>v\<close> stand in consecutive stage lists, their hosts differ and the substrate
  connects them; its delay and cost are the sums along the path the delay-weighted
  shortest-path query returns. The ledger is an argument only: the function calls
  \<open>has_resources\<close> and reads \<open>id\<close>, neither of which assigns, and the ledger is no part
  of what it returns. Accordingly, in the loop body of \<open>run_simulation\<close> the ledger
  after the first call of \<open>construct_msg\<close> is the ledger the body was given, and the
  ledger after the second call is the ledger the active reservation left.
\<close>

theorem construct_msg_candidates_and_edges:
  assumes "\<forall>n\<in>set physical_nodes. has_node Gp (node_id n)"
  shows "(\<exists>MSG stage_nodes.
     construct_msg Gp sfc physical_nodes used_nodes = Inr (MSG, stage_nodes)
     \<and> length stage_nodes = length (stages sfc)
     \<and> (\<forall>s<length (stages sfc).
          stage_nodes ! s =
            map (\<lambda>n. (node_id n, s))
              (filter (\<lambda>n. cpu n - used_cpu n \<ge> stages sfc ! s \<and> node_id n \<notin> used_nodes)
                 physical_nodes)
          \<and> (\<forall>v\<in>set (stage_nodes ! s).
                nodes MSG v = Some \<lparr>physical = fst v, stage = s, vcpu = stages sfc ! s\<rparr>))
     \<and> (\<forall>u v. edges MSG (u, v) =
          (if (\<exists>s. Suc s < length stage_nodes \<and> u \<in> set (stage_nodes ! s)
                   \<and> v \<in> set (stage_nodes ! Suc s))
              \<and> fst u \<noteq> fst v \<and> reachable Gp (fst u) (fst v)
           then Some \<lparr>delay = path_sum (link_delay Gp) (shortest_path Gp (fst u) (fst v)),
                      cost = path_sum (link_cost Gp) (shortest_path Gp (fst u) (fst v))\<rparr>
           else None)))
   \<and> (\<forall>nodes' res h. place_request Gp physical_nodes sfc = Inr (nodes', res, h) \<longrightarrow>
         h \<noteq> [] \<and> hd h = physical_nodes \<and> (3 < length h \<longrightarrow> h ! 3 = h ! 2))"
proof -
  from construct_msg_char[OF assms, of sfc used_nodes] obtain M where
    r: "construct_msg Gp sfc physical_nodes used_nodes
          = Inr (M, stage_lists sfc physical_nodes used_nodes)"
    and n: "\<forall>v. nodes M v =
           (if snd v < length (stages sfc)
               \<and> v \<in> set (candidates physical_nodes used_nodes (snd v) (stages sfc ! snd v))
            then Some \<lparr>physical = fst v, stage = snd v, vcpu = stages sfc ! snd v\<rparr> else None)"
    and e: "\<forall>x y. edges M (x, y) =
           (if adjacent (stage_lists sfc physical_nodes used_nodes) x y
               \<and> fst x \<noteq> fst y \<and> reachable Gp (fst x) (fst y)
            then Some \<lparr>delay = sp_delay Gp (fst x) (fst y), cost = sp_cost Gp (fst x) (fst y)\<rparr>
            else None)"
    by blast
  let ?sn = "stage_lists sfc physical_nodes used_nodes"
  have len: "length ?sn = length (stages sfc)" by (simp add: stage_lists_def)
  have st: "\<forall>s<length (stages sfc).
          ?sn ! s =
            map (\<lambda>n. (node_id n, s))
              (filter (\<lambda>n. cpu n - used_cpu n \<ge> stages sfc ! s \<and> node_id n \<notin> used_nodes)
                 physical_nodes)
          \<and> (\<forall>v\<in>set (?sn ! s).
                nodes M v = Some \<lparr>physical = fst v, stage = s, vcpu = stages sfc ! s\<rparr>)"
  proof (intro allI impI conjI ballI)
    fix s assume s: "s < length (stages sfc)"
    show "?sn ! s = map (\<lambda>n. (node_id n, s))
              (filter (\<lambda>n. cpu n - used_cpu n \<ge> stages sfc ! s \<and> node_id n \<notin> used_nodes)
                 physical_nodes)"
      using s by (simp add: stage_lists_def candidates_def has_resources_def)
    fix v assume "v \<in> set (?sn ! s)"
    then have v: "v \<in> set (candidates physical_nodes used_nodes s (stages sfc ! s))"
      using s by (simp add: stage_lists_def)
    then have "snd v = s" by (rule snd_candidates)
    then show "nodes M v = Some \<lparr>physical = fst v, stage = s, vcpu = stages sfc ! s\<rparr>"
      using v s by (simp add: n)
  qed
  have ed: "\<forall>u v. edges M (u, v) =
          (if (\<exists>s. Suc s < length ?sn \<and> u \<in> set (?sn ! s) \<and> v \<in> set (?sn ! Suc s))
              \<and> fst u \<noteq> fst v \<and> reachable Gp (fst u) (fst v)
           then Some \<lparr>delay = path_sum (link_delay Gp) (shortest_path Gp (fst u) (fst v)),
                      cost = path_sum (link_cost Gp) (shortest_path Gp (fst u) (fst v))\<rparr>
           else None)"
    using e unfolding adjacent_def sp_delay_def sp_cost_def .
  have a: "\<exists>MSG stage_nodes.
     construct_msg Gp sfc physical_nodes used_nodes = Inr (MSG, stage_nodes)
     \<and> length stage_nodes = length (stages sfc)
     \<and> (\<forall>s<length (stages sfc).
          stage_nodes ! s =
            map (\<lambda>n. (node_id n, s))
              (filter (\<lambda>n. cpu n - used_cpu n \<ge> stages sfc ! s \<and> node_id n \<notin> used_nodes)
                 physical_nodes)
          \<and> (\<forall>v\<in>set (stage_nodes ! s).
                nodes MSG v = Some \<lparr>physical = fst v, stage = s, vcpu = stages sfc ! s\<rparr>))
     \<and> (\<forall>u v. edges MSG (u, v) =
          (if (\<exists>s. Suc s < length stage_nodes \<and> u \<in> set (stage_nodes ! s)
                   \<and> v \<in> set (stage_nodes ! Suc s))
              \<and> fst u \<noteq> fst v \<and> reachable Gp (fst u) (fst v)
           then Some \<lparr>delay = path_sum (link_delay Gp) (shortest_path Gp (fst u) (fst v)),
                      cost = path_sum (link_cost Gp) (shortest_path Gp (fst u) (fst v))\<rparr>
           else None))"
    using r len st ed by blast
  have b: "\<forall>nodes' res h. place_request Gp physical_nodes sfc = Inr (nodes', res, h) \<longrightarrow>
         h \<noteq> [] \<and> hd h = physical_nodes \<and> (3 < length h \<longrightarrow> h ! 3 = h ! 2)"
    using place_request_reads_ledger by blast
  show ?thesis using a b by (rule conjI)
qed

theorem construct_msg_candidates_and_edges_witness:
  "\<exists>MSG stage_nodes. construct_msg Gw Rw Lw3 {} = Inr (MSG, stage_nodes)
     \<and> stage_nodes ! 0 = [(0, 0), (2, 0)] \<and> stage_nodes ! 1 = [(0, 1), (1, 1), (2, 1)]
     \<and> edges MSG ((0, 0), (1, 1)) = Some \<lparr>delay = 2, cost = 3\<rparr>
     \<and> edges MSG ((0, 0), (0, 1)) = None
     \<and> (\<exists>nodes' res h. place_request Gw Lw3 Rw = Inr (nodes', res, h)
           \<and> hd h = Lw3 \<and> h ! 3 = h ! 2)"
proof -
  have h: "\<forall>n\<in>set Lw3. has_node Gw (node_id n)"
    by (simp add: Lw3_def Gw_def new_node_def)
  note t = construct_msg_candidates_and_edges[OF h, of Rw "{}"]
  from t[THEN conjunct1] obtain MSG stage_nodes where
    r: "construct_msg Gw Rw Lw3 {} = Inr (MSG, stage_nodes)"
    and len: "length stage_nodes = length (stages Rw)"
    and st: "\<forall>s<length (stages Rw).
          stage_nodes ! s =
            map (\<lambda>n. (node_id n, s))
              (filter (\<lambda>n. cpu n - used_cpu n \<ge> stages Rw ! s \<and> node_id n \<notin> {}) Lw3)
          \<and> (\<forall>v\<in>set (stage_nodes ! s).
                nodes MSG v = Some \<lparr>physical = fst v, stage = s, vcpu = stages Rw ! s\<rparr>)"
    and ed: "\<forall>u v. edges MSG (u, v) =
          (if (\<exists>s. Suc s < length stage_nodes \<and> u \<in> set (stage_nodes ! s)
                   \<and> v \<in> set (stage_nodes ! Suc s))
              \<and> fst u \<noteq> fst v \<and> reachable Gw (fst u) (fst v)
           then Some \<lparr>delay = path_sum (link_delay Gw) (shortest_path Gw (fst u) (fst v)),
                      cost = path_sum (link_cost Gw) (shortest_path Gw (fst u) (fst v))\<rparr>
           else None)"
    by blast
  have s0: "stage_nodes ! 0 = [(0, 0), (2, 0)]"
    using st[rule_format, of 0] by (simp add: Rw_def Lw3_def new_node_def)
  have s1: "stage_nodes ! 1 = [(0, 1), (1, 1), (2, 1)]"
    using st[rule_format, of 1] by (simp add: Rw_def Lw3_def new_node_def)
  have l2: "length stage_nodes = 2" using len by (simp add: Rw_def)
  have adj: "\<exists>s. Suc s < length stage_nodes \<and> (0, 0) \<in> set (stage_nodes ! s)
                   \<and> (1, 1) \<in> set (stage_nodes ! Suc s)"
    using s0 s1 l2 by (intro exI[of _ 0]) simp
  have e1: "edges MSG ((0, 0), (1, 1)) = Some \<lparr>delay = 2, cost = 3\<rparr>"
    using adj by (simp add: ed Gw_def)
  have e2: "edges MSG ((0, 0), (0, 1)) = None"
    by (simp add: ed)
  have "case place_request Gw Lw3 Rw of
          Inr (nodes', res, h) \<Rightarrow> 3 < length h | Inl e \<Rightarrow> False"
    by code_simp
  then obtain nodes' res h' where p: "place_request Gw Lw3 Rw = Inr (nodes', res, h')"
    and l: "3 < length h'"
    by (auto split: sum.splits prod.splits)
  from t[THEN conjunct2] p l have f: "hd h' = Lw3 \<and> h' ! 3 = h' ! 2" by blast
  show ?thesis using r s0 s1 e1 e2 p f by blast
qed

section \<open>Properties of the search\<close>

lemma hops_simps [simp]:
  "hops [] = []" "hops [a] = []" "hops (a # b # rest) = (a, b) # hops (b # rest)"
  by (simp_all add: hops_def)

lemma seen_loop_char:
  assumes "\<forall>v\<in>set path. nodes M v \<noteq> None"
  shows "seen_loop M path seen =
     Inr (distinct (map (host_of M) path) \<and> set (map (host_of M) path) \<inter> seen = {})"
  using assms
proof (induction path arbitrary: seen)
  case Nil
  then show ?case by simp
next
  case (Cons v rest)
  then obtain a where a: "nodes M v = Some a" by auto
  have p: "physical_of M v = Inr (host_of M v)"
    using a by (simp add: physical_of_def host_of_def)
  show ?case
  proof (cases "host_of M v \<in> seen")
    case True
    then show ?thesis by (simp add: p)
  next
    case False
    have "seen_loop M (v # rest) seen = seen_loop M rest (insert (host_of M v) seen)"
      using False by (simp add: p)
    also have "\<dots> = Inr (distinct (map (host_of M) rest)
        \<and> set (map (host_of M) rest) \<inter> insert (host_of M v) seen = {})"
      using Cons by simp
    finally show ?thesis using False by auto
  qed
qed

lemma hop_loop_char:
  "hop_loop M path d c =
     (if list_all (\<lambda>e. edges M e \<noteq> None) (hops path)
      then Some (d + hop_delay M path, c + hop_cost M path) else None)"
proof (induction M path d c rule: hop_loop.induct)
  case (1 M a b rest d c)
  show ?case
  proof (cases "edges M (a, b)")
    case None
    then show ?thesis by simp
  next
    case (Some e)
    then show ?thesis using 1 by (simp add: hop_delay_def hop_cost_def)
  qed
qed (simp_all add: hop_delay_def hop_cost_def)

lemma endpoint_term_char:
  assumes "has_node Gp a" "has_node Gp b"
  shows "endpoint_term Gp differ a b =
     Inr (if differ \<and> reachable Gp a b then (sp_delay Gp a b, sp_cost Gp a b) else (0, 0))"
  using assms by (simp add: endpoint_term_def has_path_def)

lemma check_path_bf_char:
  assumes "\<forall>v\<in>set path. nodes M v \<noteq> None"
  shows "check_path_bf M sfc path =
     Inr (if feasible_bf M sfc path then Some (path, hop_delay M path, hop_cost M path) else None)"
  using assms
  by (simp add: check_path_bf_def seen_loop_char hop_loop_char feasible_bf_def chain_ok_def)

lemma check_path_char:
  assumes "\<forall>v\<in>set path. known Gp M v" "path \<noteq> []" "has_node Gp (src sfc)" "has_node Gp (dest sfc)"
  shows "check_path M sfc Gp path =
     Inr (if feasible M sfc Gp path
          then Some (path, total_delay M sfc Gp path, total_cost M sfc Gp path) else None)"
proof -
  obtain first others where path: "path = first # others" using assms(2) by (cases path) auto
  have kn: "\<forall>v\<in>set path. nodes M v \<noteq> None" using assms(1) by (simp add: known_def)
  have kf: "known Gp M first" and kl: "known Gp M (last path)"
    using assms(1,2) path by auto
  have pf: "physical_of M first = Inr (host_of M first)"
    and pl: "physical_of M (last path) = Inr (host_of M (last path))"
    using kf kl by (simp_all add: known_physical_of)
  have nf: "has_node Gp (host_of M first)" and nl: "has_node Gp (host_of M (last path))"
    using kf kl by (simp_all add: known_def)
  have i: "endpoint_term Gp (host_of M first \<noteq> src sfc) (src sfc) (host_of M first)
      = Inr (ingress M sfc Gp path)"
    using endpoint_term_char[OF assms(3) nf] by (simp add: ingress_def path)
  have e: "endpoint_term Gp (host_of M (last path) \<noteq> dest sfc) (host_of M (last path)) (dest sfc)
      = Inr (egress M sfc Gp path)"
    using endpoint_term_char[OF nl assms(4)] by (simp add: egress_def)
  show ?thesis
  proof (cases "chain_ok M path")
    case False
    then show ?thesis
      by (auto simp: check_path_def seen_loop_char[OF kn] hop_loop_char feasible_def chain_ok_def)
  next
    case True
    then have s: "seen_loop M path {} = Inr True"
      and h: "hop_loop M path 0 0 = Some (hop_delay M path, hop_cost M path)"
      by (simp_all add: seen_loop_char[OF kn] hop_loop_char chain_ok_def)
    obtain sd sc where sdc: "ingress M sfc Gp path = (sd, sc)" by force
    obtain dd dc where ddc: "egress M sfc Gp path = (dd, dc)" by force
    have "check_path M sfc Gp path =
       (if hop_delay M path + sd + dd \<le> max_delay sfc
        then Inr (Some (path, hop_delay M path + sd + dd, hop_cost M path + sc + dc))
        else Inr None)"
      unfolding check_path_def s h using pf pl i e sdc ddc path
      by (simp add: Let_def)
    then show ?thesis using True
      by (simp add: feasible_def total_delay_def total_cost_def sdc ddc)
  qed
qed

lemma collect_paths_char:
  assumes "\<forall>p\<in>set cands. body p = Inr (if feas p then Some (p, dl p, cs p) else None)"
  shows "collect_paths body cands acc =
     Inr (acc @ map (\<lambda>p. (p, dl p, cs p)) (filter feas cands))"
  using assms by (induction cands arbitrary: acc) simp_all

lemma min_loop_char:
  "\<exists>i<length (b # xs). min_loop b xs = (b # xs) ! i
     \<and> (\<forall>j<length (b # xs). snd (snd ((b # xs) ! i)) \<le> snd (snd ((b # xs) ! j)))
     \<and> (\<forall>j<i. snd (snd ((b # xs) ! i)) < snd (snd ((b # xs) ! j)))"
proof (induction xs arbitrary: b)
  case Nil
  then show ?case by simp
next
  case (Cons x xs)
  show ?case
  proof (cases "snd (snd x) < snd (snd b)")
    case True
    from Cons[of x] obtain i where i: "i < length (x # xs)" "min_loop x xs = (x # xs) ! i"
      "\<forall>j<length (x # xs). snd (snd ((x # xs) ! i)) \<le> snd (snd ((x # xs) ! j))"
      "\<forall>j<i. snd (snd ((x # xs) ! i)) < snd (snd ((x # xs) ! j))" by blast
    have le_x: "snd (snd ((x # xs) ! i)) \<le> snd (snd x)" using i(3) by force
    have a: "Suc i < length (b # x # xs)" using i(1) by simp
    have b: "min_loop b (x # xs) = (b # x # xs) ! Suc i" using True i(2) by simp
    have c: "\<forall>j<length (b # x # xs). snd (snd ((b # x # xs) ! Suc i)) \<le> snd (snd ((b # x # xs) ! j))"
    proof (intro allI impI)
      fix j assume "j < length (b # x # xs)"
      then show "snd (snd ((b # x # xs) ! Suc i)) \<le> snd (snd ((b # x # xs) ! j))"
        using i(3) le_x True by (cases j) auto
    qed
    have d: "\<forall>j<Suc i. snd (snd ((b # x # xs) ! Suc i)) < snd (snd ((b # x # xs) ! j))"
    proof (intro allI impI)
      fix j assume "j < Suc i"
      then show "snd (snd ((b # x # xs) ! Suc i)) < snd (snd ((b # x # xs) ! j))"
        using i(4) le_x True by (cases j) auto
    qed
    show ?thesis using a b c d by blast
  next
    case False
    from Cons[of b] obtain i where i: "i < length (b # xs)" "min_loop b xs = (b # xs) ! i"
      "\<forall>j<length (b # xs). snd (snd ((b # xs) ! i)) \<le> snd (snd ((b # xs) ! j))"
      "\<forall>j<i. snd (snd ((b # xs) ! i)) < snd (snd ((b # xs) ! j))" by blast
    have le_b: "snd (snd ((b # xs) ! i)) \<le> snd (snd b)" using i(3) by force
    show ?thesis
    proof (cases i)
      case 0
      have a: "0 < length (b # x # xs)" by simp
      have b: "min_loop b (x # xs) = (b # x # xs) ! 0" using False i(2) 0 by simp
      have c: "\<forall>j<length (b # x # xs). snd (snd ((b # x # xs) ! 0)) \<le> snd (snd ((b # x # xs) ! j))"
      proof (intro allI impI)
        fix j assume j: "j < length (b # x # xs)"
        show "snd (snd ((b # x # xs) ! 0)) \<le> snd (snd ((b # x # xs) ! j))"
        proof (cases j)
          case 0
          then show ?thesis by simp
        next
          case (Suc k)
          show ?thesis
          proof (cases k)
            case 0
            then show ?thesis using Suc False by simp
          next
            case (Suc m)
            have "Suc m < length (b # xs)" using j \<open>j = Suc k\<close> Suc by simp
            then have "snd (snd ((b # xs) ! i)) \<le> snd (snd ((b # xs) ! Suc m))" using i(3) by blast
            then show ?thesis using \<open>j = Suc k\<close> Suc \<open>i = 0\<close> by simp
          qed
        qed
      qed
      show ?thesis using a b c by blast
    next
      case (Suc k)
      have a: "Suc i < length (b # x # xs)" using i(1) by simp
      have b: "min_loop b (x # xs) = (b # x # xs) ! Suc i" using False i(2) Suc by simp
      have lt_b: "snd (snd ((b # xs) ! i)) < snd (snd b)" using i(4) Suc by force
      have c: "\<forall>j<length (b # x # xs). snd (snd ((b # x # xs) ! Suc i)) \<le> snd (snd ((b # x # xs) ! j))"
      proof (intro allI impI)
        fix j assume j: "j < length (b # x # xs)"
        show "snd (snd ((b # x # xs) ! Suc i)) \<le> snd (snd ((b # x # xs) ! j))"
        proof (cases j)
          case 0
          then show ?thesis using le_b Suc by simp
        next
          case (Suc m)
          show ?thesis
          proof (cases m)
            case 0
            then show ?thesis using \<open>j = Suc m\<close> False lt_b \<open>i = Suc k\<close> by simp
          next
            case (Suc n)
            have "Suc n < length (b # xs)" using j \<open>j = Suc m\<close> Suc by simp
            then have "snd (snd ((b # xs) ! i)) \<le> snd (snd ((b # xs) ! Suc n))" using i(3) by blast
            then show ?thesis using \<open>j = Suc m\<close> Suc \<open>i = Suc k\<close> by simp
          qed
        qed
      qed
      have d: "\<forall>j<Suc i. snd (snd ((b # x # xs) ! Suc i)) < snd (snd ((b # x # xs) ! j))"
      proof (intro allI impI)
        fix j assume j: "j < Suc i"
        show "snd (snd ((b # x # xs) ! Suc i)) < snd (snd ((b # x # xs) ! j))"
        proof (cases j)
          case 0
          then show ?thesis using lt_b Suc by simp
        next
          case (Suc m)
          show ?thesis
          proof (cases m)
            case 0
            then show ?thesis using \<open>j = Suc m\<close> False lt_b \<open>i = Suc k\<close> by simp
          next
            case (Suc n)
            have "Suc n < i" using j \<open>j = Suc m\<close> Suc by simp
            then have "snd (snd ((b # xs) ! i)) < snd (snd ((b # xs) ! Suc n))" using i(4) by blast
            then show ?thesis using \<open>j = Suc m\<close> Suc \<open>i = Suc k\<close> by simp
          qed
        qed
      qed
      show ?thesis using a b c d by blast
    qed
  qed
qed

lemma min_by_cost_None: "min_by_cost xs = None \<longleftrightarrow> xs = []"
  by (simp add: min_by_cost_def split: list.splits)

lemma min_by_cost_Some:
  assumes "min_by_cost xs = Some r"
  shows "\<exists>i<length xs. r = xs ! i
     \<and> (\<forall>j<length xs. snd (snd r) \<le> snd (snd (xs ! j)))
     \<and> (\<forall>j<i. snd (snd r) < snd (snd (xs ! j)))"
proof (cases xs)
  case Nil
  then show ?thesis using assms by (simp add: min_by_cost_def)
next
  case (Cons b ys)
  then have r: "r = min_loop b ys" using assms by (simp add: min_by_cost_def)
  from min_loop_char[of b ys] show ?thesis unfolding Cons r by metis
qed

lemma filter_nth_origin:
  "k < length (filter P xs) \<Longrightarrow>
     \<exists>i<length xs. xs ! i = filter P xs ! k \<and>
        (\<forall>j<i. P (xs ! j) \<longrightarrow> (\<exists>k'<k. filter P xs ! k' = xs ! j))"
proof (induction xs arbitrary: k)
  case Nil
  then show ?case by simp
next
  case (Cons x xs)
  show ?case
  proof (cases "P x")
    case True
    show ?thesis
    proof (cases k)
      case 0
      have "0 < length (x # xs) \<and> (x # xs) ! 0 = filter P (x # xs) ! k \<and>
        (\<forall>j<0. P ((x # xs) ! j) \<longrightarrow> (\<exists>k'<k. filter P (x # xs) ! k' = (x # xs) ! j))"
        using True 0 by simp
      then show ?thesis by blast
    next
      case (Suc k0)
      then have "k0 < length (filter P xs)" using Cons.prems True by simp
      from Cons.IH[OF this] obtain i where i: "i < length xs" "xs ! i = filter P xs ! k0"
        "\<forall>j<i. P (xs ! j) \<longrightarrow> (\<exists>k'<k0. filter P xs ! k' = xs ! j)" by blast
      have "\<forall>j<Suc i. P ((x # xs) ! j) \<longrightarrow> (\<exists>k'<k. filter P (x # xs) ! k' = (x # xs) ! j)"
      proof (intro allI impI)
        fix j assume j: "j < Suc i" "P ((x # xs) ! j)"
        show "\<exists>k'<k. filter P (x # xs) ! k' = (x # xs) ! j"
        proof (cases j)
          case 0
          have "0 < k \<and> filter P (x # xs) ! 0 = (x # xs) ! j" using 0 True Suc by simp
          then show ?thesis by blast
        next
          case (Suc j0)
          then have "j0 < i" "P (xs ! j0)" using j by simp_all
          then obtain k' where "k' < k0" "filter P xs ! k' = xs ! j0" using i(3) by blast
          then have "Suc k' < k \<and> filter P (x # xs) ! Suc k' = (x # xs) ! j"
            using True Suc \<open>k = Suc k0\<close> by simp
          then show ?thesis by blast
        qed
      qed
      moreover have "Suc i < length (x # xs)" "(x # xs) ! Suc i = filter P (x # xs) ! k"
        using i(1,2) True Suc by simp_all
      ultimately show ?thesis by blast
    qed
  next
    case False
    then have "k < length (filter P xs)" using Cons.prems by simp
    from Cons.IH[OF this] obtain i where i: "i < length xs" "xs ! i = filter P xs ! k"
      "\<forall>j<i. P (xs ! j) \<longrightarrow> (\<exists>k'<k. filter P xs ! k' = xs ! j)" by blast
    have "\<forall>j<Suc i. P ((x # xs) ! j) \<longrightarrow> (\<exists>k'<k. filter P (x # xs) ! k' = (x # xs) ! j)"
    proof (intro allI impI)
      fix j assume j: "j < Suc i" "P ((x # xs) ! j)"
      show "\<exists>k'<k. filter P (x # xs) ! k' = (x # xs) ! j"
      proof (cases j)
        case 0
        then show ?thesis using j False by simp
      next
        case (Suc j0)
        then have "j0 < i" "P (xs ! j0)" using j by simp_all
        then obtain k' where "k' < k" "filter P xs ! k' = xs ! j0" using i(3) by blast
        then show ?thesis using False Suc by auto
      qed
    qed
    moreover have "Suc i < length (x # xs)" "(x # xs) ! Suc i = filter P (x # xs) ! k"
      using i(1,2) False by simp_all
    ultimately show ?thesis by blast
  qed
qed

lemma search_char:
  assumes "\<forall>p\<in>set cands. body p = Inr (if feas p then Some (p, dl p, cs p) else None)"
  shows "\<exists>r. (case collect_paths body cands [] of Inl e \<Rightarrow> Inl e
               | Inr paths \<Rightarrow> Inr (min_by_cost paths)) = Inr r
     \<and> search_result cands feas dl cs r"
proof -
  let ?g = "\<lambda>p. (p, dl p, cs p)"
  let ?fs = "filter feas cands"
  let ?ys = "map ?g ?fs"
  have c: "collect_paths body cands [] = Inr ?ys"
    using collect_paths_char[OF assms, of "[]"] by simp
  have none: "min_by_cost ?ys = None \<longleftrightarrow> (\<forall>p\<in>set cands. \<not> feas p)"
    by (simp add: min_by_cost_None filter_empty_conv)
  have some: "\<forall>p d c. min_by_cost ?ys = Some (p, d, c) \<longrightarrow>
          p \<in> set cands \<and> feas p \<and> d = dl p \<and> c = cs p
          \<and> (\<forall>q\<in>set cands. feas q \<longrightarrow> c \<le> cs q)
          \<and> (\<exists>i<length cands. cands ! i = p
                \<and> (\<forall>j<i. feas (cands ! j) \<longrightarrow> c < cs (cands ! j)))"
  proof (intro allI impI)
    fix p d c assume m: "min_by_cost ?ys = Some (p, d, c)"
    from min_by_cost_Some[OF m] obtain k where k: "k < length ?ys" "(p, d, c) = ?ys ! k"
      "\<forall>j<length ?ys. snd (snd (p, d, c)) \<le> snd (snd (?ys ! j))"
      "\<forall>j<k. snd (snd (p, d, c)) < snd (snd (?ys ! j))" by blast
    have kf: "k < length ?fs" using k(1) by simp
    have pk: "p = ?fs ! k" "d = dl p" "c = cs p" using k(2) kf by simp_all
    have pin: "p \<in> set ?fs" using pk(1) kf nth_mem by blast
    then have pc: "p \<in> set cands" "feas p" by simp_all
    have mn: "\<forall>q\<in>set cands. feas q \<longrightarrow> c \<le> cs q"
    proof (intro ballI impI)
      fix q assume "q \<in> set cands" "feas q"
      then have "q \<in> set ?fs" by simp
      then obtain j where j: "j < length ?fs" "?fs ! j = q"
        unfolding in_set_conv_nth by blast
      have "j < length ?ys" using j(1) by simp
      then have "snd (snd (p, d, c)) \<le> snd (snd (?ys ! j))" using k(3) by blast
      then show "c \<le> cs q" using j by simp
    qed
    from filter_nth_origin[OF kf] obtain i where i: "i < length cands" "cands ! i = ?fs ! k"
      "\<forall>j<i. feas (cands ! j) \<longrightarrow> (\<exists>k'<k. ?fs ! k' = cands ! j)" by blast
    have fst: "\<forall>j<i. feas (cands ! j) \<longrightarrow> c < cs (cands ! j)"
    proof (intro allI impI)
      fix j assume "j < i" "feas (cands ! j)"
      then obtain k' where k': "k' < k" "?fs ! k' = cands ! j" using i(3) by blast
      then have "snd (snd (p, d, c)) < snd (snd (?ys ! k'))" using k(4) by blast
      moreover have "k' < length ?fs" using k'(1) kf by simp
      ultimately show "c < cs (cands ! j)" using k'(2) by simp
    qed
    show "p \<in> set cands \<and> feas p \<and> d = dl p \<and> c = cs p
          \<and> (\<forall>q\<in>set cands. feas q \<longrightarrow> c \<le> cs q)
          \<and> (\<exists>i<length cands. cands ! i = p
                \<and> (\<forall>j<i. feas (cands ! j) \<longrightarrow> c < cs (cands ! j)))"
    proof (intro conjI)
      show "\<exists>i<length cands. cands ! i = p \<and> (\<forall>j<i. feas (cands ! j) \<longrightarrow> c < cs (cands ! j))"
        using i(1,2) pk(1) fst by blast
    qed (use pc pk mn in simp_all)
  qed
  have eq: "(case collect_paths body cands [] of Inl e \<Rightarrow> Inl e
               | Inr paths \<Rightarrow> Inr (min_by_cost paths)) = Inr (min_by_cost ?ys)"
    by (simp add: c)
  have "search_result cands feas dl cs (min_by_cost ?ys)"
    unfolding search_result_def by (intro conjI) (rule none, rule some)
  with eq show ?thesis by blast
qed

lemma in_product_lists:
  "p \<in> set (product_lists xss) \<longleftrightarrow>
     length p = length xss \<and> (\<forall>k<length xss. p ! k \<in> set (xss ! k))"
  by (auto simp: product_lists_set list_all2_conv_all_nth)

lemma in_product_lists_mem:
  assumes "p \<in> set (product_lists xss)" "v \<in> set p"
  shows "\<exists>st\<in>set xss. v \<in> set st"
proof -
  from assms(2) obtain k where k: "k < length p" "p ! k = v" by (auto simp: in_set_conv_nth)
  then have "k < length xss" "v \<in> set (xss ! k)" using assms(1) by (auto simp: in_product_lists)
  then show ?thesis using nth_mem by blast
qed

lemma find_feasible_path_char:
  assumes "stage_nodes \<noteq> []"
    and "\<forall>st\<in>set stage_nodes. \<forall>v\<in>set st. known Gp M v"
    and "has_node Gp (src sfc)" and "has_node Gp (dest sfc)"
  shows "\<exists>r. find_feasible_path M stage_nodes sfc Gp = Inr r
     \<and> search_result (product_lists stage_nodes) (feasible M sfc Gp)
          (total_delay M sfc Gp) (total_cost M sfc Gp) r"
proof -
  have body: "\<forall>p\<in>set (product_lists stage_nodes). check_path M sfc Gp p =
     Inr (if feasible M sfc Gp p
          then Some (p, total_delay M sfc Gp p, total_cost M sfc Gp p) else None)"
  proof
    fix p assume p: "p \<in> set (product_lists stage_nodes)"
    have k: "\<forall>v\<in>set p. known Gp M v"
      using in_product_lists_mem[OF p] assms(2) by blast
    have ne: "p \<noteq> []" using p assms(1) by (auto simp: in_product_lists)
    show "check_path M sfc Gp p =
     Inr (if feasible M sfc Gp p
          then Some (p, total_delay M sfc Gp p, total_cost M sfc Gp p) else None)"
      by (rule check_path_char[OF k ne assms(3,4)])
  qed
  show ?thesis unfolding find_feasible_path_def by (rule search_char[OF body])
qed

lemma find_feasible_path_bf_char:
  assumes "\<forall>st\<in>set stage_nodes. \<forall>v\<in>set st. nodes M v \<noteq> None"
  shows "\<exists>r. find_feasible_path_bf M stage_nodes sfc = Inr r
     \<and> search_result (product_lists stage_nodes) (feasible_bf M sfc) (hop_delay M) (hop_cost M) r"
proof -
  have body: "\<forall>p\<in>set (product_lists stage_nodes). check_path_bf M sfc p =
     Inr (if feasible_bf M sfc p then Some (p, hop_delay M p, hop_cost M p) else None)"
  proof
    fix p assume p: "p \<in> set (product_lists stage_nodes)"
    have k: "\<forall>v\<in>set p. nodes M v \<noteq> None"
      using in_product_lists_mem[OF p] assms by blast
    show "check_path_bf M sfc p =
     Inr (if feasible_bf M sfc p then Some (p, hop_delay M p, hop_cost M p) else None)"
      by (rule check_path_bf_char[OF k])
  qed
  show ?thesis unfolding find_feasible_path_bf_def by (rule search_char[OF body])
qed

lemma search_result_unfold:
  assumes "search_result (product_lists sn) feas dl cs r"
  shows "(r = None \<longleftrightarrow> (\<forall>p\<in>set (product_lists sn). \<not> feas p))
     \<and> (\<forall>p d c. r = Some (p, d, c) \<longrightarrow>
          length p = length sn \<and> (\<forall>k<length sn. p ! k \<in> set (sn ! k))
          \<and> feas p \<and> d = dl p \<and> c = cs p
          \<and> (\<forall>q\<in>set (product_lists sn). feas q \<longrightarrow> c \<le> cs q)
          \<and> (\<exists>i<length (product_lists sn). product_lists sn ! i = p
                \<and> (\<forall>j<i. feas (product_lists sn ! j) \<longrightarrow> c < cs (product_lists sn ! j))))"
proof (intro conjI allI impI)
  show "r = None \<longleftrightarrow> (\<forall>p\<in>set (product_lists sn). \<not> feas p)"
    using assms by (simp add: search_result_def)
next
  fix p d c assume s: "r = Some (p, d, c)"
  have a: "p \<in> set (product_lists sn) \<and> feas p \<and> d = dl p \<and> c = cs p
            \<and> (\<forall>q\<in>set (product_lists sn). feas q \<longrightarrow> c \<le> cs q)
            \<and> (\<exists>i<length (product_lists sn). product_lists sn ! i = p
                  \<and> (\<forall>j<i. feas (product_lists sn ! j) \<longrightarrow> c < cs (product_lists sn ! j)))"
    using assms s unfolding search_result_def by blast
  show "length p = length sn" using a by (simp add: in_product_lists)
  show "feas p" "d = dl p" "c = cs p" using a by simp_all
  show "\<forall>q\<in>set (product_lists sn). feas q \<longrightarrow> c \<le> cs q" using a by blast
  show "\<exists>i<length (product_lists sn). product_lists sn ! i = p
                \<and> (\<forall>j<i. feas (product_lists sn ! j) \<longrightarrow> c < cs (product_lists sn ! j))"
    using a by blast
  fix k assume "k < length sn"
  then show "p ! k \<in> set (sn ! k)" using a by (simp add: in_product_lists)
qed

text \<open>
  Claim C1. Let the stage lists be non-empty in number, every vertex in them a node of
  the graph whose host is a node of the substrate, and the source and destination of
  the request nodes of the substrate. A candidate is feasible when its hosts are
  pairwise distinct, every consecutive pair is an edge of the graph, and its total
  delay is at most \<open>max_delay\<close>. Then \<open>find_feasible_path\<close> returns \<open>None\<close>
  exactly when no candidate of the Cartesian product of the stage lists is feasible;
  otherwise it returns a feasible candidate with one vertex of each stage list, with
  its total delay and total cost, whose cost is the least among the feasible candidates
  and strictly less than the cost of every feasible candidate that comes earlier in the
  enumeration of the product. The same holds for \<open>find_feasible_path\<close> of
  \<open>brute-force_SFC_placement.py\<close>, whose totals are the sums over the edges alone.
\<close>

theorem find_feasible_path_minimum:
  assumes "stage_nodes \<noteq> []"
    and "\<forall>st\<in>set stage_nodes. \<forall>v\<in>set st. nodes MSG v \<noteq> None \<and> has_node Gp (host_of MSG v)"
    and "has_node Gp (src sfc)" and "has_node Gp (dest sfc)"
  shows "(\<exists>r. find_feasible_path MSG stage_nodes sfc Gp = Inr r
     \<and> (r = None \<longleftrightarrow> (\<forall>p\<in>set (product_lists stage_nodes). \<not> feasible MSG sfc Gp p))
     \<and> (\<forall>p d c. r = Some (p, d, c) \<longrightarrow>
          length p = length stage_nodes \<and> (\<forall>k<length stage_nodes. p ! k \<in> set (stage_nodes ! k))
          \<and> feasible MSG sfc Gp p
          \<and> d = total_delay MSG sfc Gp p \<and> c = total_cost MSG sfc Gp p
          \<and> (\<forall>q\<in>set (product_lists stage_nodes).
                feasible MSG sfc Gp q \<longrightarrow> c \<le> total_cost MSG sfc Gp q)
          \<and> (\<exists>i<length (product_lists stage_nodes). product_lists stage_nodes ! i = p
                \<and> (\<forall>j<i. feasible MSG sfc Gp (product_lists stage_nodes ! j)
                        \<longrightarrow> c < total_cost MSG sfc Gp (product_lists stage_nodes ! j)))))
   \<and> (\<exists>r. find_feasible_path_bf MSG stage_nodes sfc = Inr r
     \<and> (r = None \<longleftrightarrow> (\<forall>p\<in>set (product_lists stage_nodes). \<not> feasible_bf MSG sfc p))
     \<and> (\<forall>p d c. r = Some (p, d, c) \<longrightarrow>
          length p = length stage_nodes \<and> (\<forall>k<length stage_nodes. p ! k \<in> set (stage_nodes ! k))
          \<and> feasible_bf MSG sfc p
          \<and> d = hop_delay MSG p \<and> c = hop_cost MSG p
          \<and> (\<forall>q\<in>set (product_lists stage_nodes). feasible_bf MSG sfc q \<longrightarrow> c \<le> hop_cost MSG q)
          \<and> (\<exists>i<length (product_lists stage_nodes). product_lists stage_nodes ! i = p
                \<and> (\<forall>j<i. feasible_bf MSG sfc (product_lists stage_nodes ! j)
                        \<longrightarrow> c < hop_cost MSG (product_lists stage_nodes ! j)))))"
proof -
  have k: "\<forall>st\<in>set stage_nodes. \<forall>v\<in>set st. known Gp MSG v"
    using assms(2) by (simp add: known_def)
  have n: "\<forall>st\<in>set stage_nodes. \<forall>v\<in>set st. nodes MSG v \<noteq> None"
    using assms(2) by simp
  from find_feasible_path_char[OF assms(1) k assms(3,4)] obtain r where
    r: "find_feasible_path MSG stage_nodes sfc Gp = Inr r"
    and sr: "search_result (product_lists stage_nodes) (feasible MSG sfc Gp)
          (total_delay MSG sfc Gp) (total_cost MSG sfc Gp) r" by blast
  from find_feasible_path_bf_char[OF n, of sfc] obtain rb where
    rb: "find_feasible_path_bf MSG stage_nodes sfc = Inr rb"
    and srb: "search_result (product_lists stage_nodes) (feasible_bf MSG sfc)
          (hop_delay MSG) (hop_cost MSG) rb" by blast
  show ?thesis
    apply (rule conjI)
     apply (rule exI[of _ r], rule conjI, rule r, rule search_result_unfold[OF sr])
    apply (rule exI[of _ rb], rule conjI, rule rb, rule search_result_unfold[OF srb])
    done
qed

lemmas inst_defs = Mc_def snc_def Gw_def Rw_def host_of_def feasible_def feasible_bf_def chain_ok_def
  total_delay_def total_cost_def hop_delay_def hop_cost_def ingress_def egress_def
  sp_delay_def sp_cost_def

theorem find_feasible_path_minimum_witness:
  "(\<exists>p d c. find_feasible_path Mc snc Rw Gw = Inr (Some (p, d, c)) \<and> c \<le> 6)
   \<and> (\<exists>p d c. find_feasible_path_bf Mc snc Rw = Inr (Some (p, d, c)) \<and> c \<le> 3)"
proof -
  have h1: "snc \<noteq> []" by (simp add: snc_def)
  have h2: "\<forall>st\<in>set snc. \<forall>v\<in>set st. nodes Mc v \<noteq> None \<and> has_node Gw (host_of Mc v)"
    by (simp add: inst_defs)
  have h3: "has_node Gw (src Rw)" "has_node Gw (dest Rw)" by (simp_all add: inst_defs)
  have q: "[(0, 0), (1, 1)] \<in> set (product_lists snc)" by (simp add: snc_def)
  have f: "feasible Mc Rw Gw [(0, 0), (1, 1)]" "total_cost Mc Rw Gw [(0, 0), (1, 1)] = 6"
    by (simp_all add: inst_defs)
  have fb: "feasible_bf Mc Rw [(0, 0), (1, 1)]" "hop_cost Mc [(0, 0), (1, 1)] = 3"
    by (simp_all add: inst_defs)
  note t = find_feasible_path_minimum[OF h1 h2 h3]
  from t[THEN conjunct1] obtain r where
    r: "find_feasible_path Mc snc Rw Gw = Inr r"
      "r = None \<longleftrightarrow> (\<forall>p\<in>set (product_lists snc). \<not> feasible Mc Rw Gw p)"
      "\<forall>p d c. r = Some (p, d, c) \<longrightarrow>
          (\<forall>q\<in>set (product_lists snc). feasible Mc Rw Gw q \<longrightarrow> c \<le> total_cost Mc Rw Gw q)"
    by (elim exE conjE) simp
  from t[THEN conjunct2] obtain rb where
    rb: "find_feasible_path_bf Mc snc Rw = Inr rb"
      "rb = None \<longleftrightarrow> (\<forall>p\<in>set (product_lists snc). \<not> feasible_bf Mc Rw p)"
      "\<forall>p d c. rb = Some (p, d, c) \<longrightarrow>
          (\<forall>q\<in>set (product_lists snc). feasible_bf Mc Rw q \<longrightarrow> c \<le> hop_cost Mc q)"
    by (elim exE conjE) simp
  have "r \<noteq> None" using r(2) q f(1) by blast
  then obtain p d c where s: "r = Some (p, d, c)" by (cases r) auto
  then have "c \<le> 6" using r(3) q f by force
  then have a: "\<exists>p d c. find_feasible_path Mc snc Rw Gw = Inr (Some (p, d, c)) \<and> c \<le> 6"
    using r(1) s by blast
  have "rb \<noteq> None" using rb(2) q fb(1) by blast
  then obtain p' d' c' where s': "rb = Some (p', d', c')" by (cases rb) auto
  then have "c' \<le> 3" using rb(3) q fb by force
  then have b: "\<exists>p d c. find_feasible_path_bf Mc snc Rw = Inr (Some (p, d, c)) \<and> c \<le> 3"
    using rb(1) s' by blast
  show ?thesis using a b by blast
qed

section \<open>The delay budget\<close>

lemma check_path_budget:
  assumes "d' \<le> d"
  shows "check_path M (sfc\<lparr>max_delay := d'\<rparr>) Gp p =
     (case check_path M (sfc\<lparr>max_delay := d\<rparr>) Gp p of
        Inl e \<Rightarrow> Inl e
      | Inr None \<Rightarrow> Inr None
      | Inr (Some x) \<Rightarrow> if within d' x then Inr (Some x) else Inr None)"
  using assms unfolding check_path_def within_def
  by (auto simp: Let_def split: sum.splits option.splits list.splits prod.splits)

lemma check_path_bf_budget:
  assumes "d' \<le> d"
  shows "check_path_bf M (sfc\<lparr>max_delay := d'\<rparr>) p =
     (case check_path_bf M (sfc\<lparr>max_delay := d\<rparr>) p of
        Inl e \<Rightarrow> Inl e
      | Inr None \<Rightarrow> Inr None
      | Inr (Some x) \<Rightarrow> if within d' x then Inr (Some x) else Inr None)"
  using assms unfolding check_path_bf_def within_def
  by (auto simp: Let_def split: sum.splits option.splits list.splits prod.splits)

lemma collect_paths_budget:
  assumes "\<And>p. body' p =
     (case body p of Inl e \<Rightarrow> Inl e | Inr None \<Rightarrow> Inr None
      | Inr (Some x) \<Rightarrow> if P x then Inr (Some x) else Inr None)"
  shows "collect_paths body' cands (filter P acc) =
     (case collect_paths body cands acc of Inl e \<Rightarrow> Inl e
      | Inr paths \<Rightarrow> Inr (filter P paths))"
proof (induction cands arbitrary: acc)
  case Nil
  then show ?case by simp
next
  case (Cons p rest)
  show ?case
  proof (cases "body p")
    case (Inl e)
    then show ?thesis by (simp add: assms)
  next
    case (Inr o1)
    show ?thesis
    proof (cases o1)
      case None
      then show ?thesis using Inr Cons.IH[of acc] by (simp add: assms)
    next
      case (Some x)
      show ?thesis
      proof (cases "P x")
        case True
        then show ?thesis using Inr Some Cons.IH[of "acc @ [x]"] by (simp add: assms)
      next
        case False
        then show ?thesis using Inr Some Cons.IH[of "acc @ [x]"] by (simp add: assms)
      qed
    qed
  qed
qed

text \<open>
  Claim C8. Let \<open>d' \<le> d\<close>. The list \<open>paths\<close> of the candidates that pass the filters
  of \<open>find_feasible_path\<close> under the delay budget \<open>d'\<close> is the list of those under the
  budget \<open>d\<close> restricted to the entries whose total delay is at most \<open>d'\<close>, in the same
  order; in particular every candidate that survives under \<open>d'\<close> survives under \<open>d\<close>,
  with the same delay and cost. When the loop raises under \<open>d\<close> it raises the same
  under \<open>d'\<close>. This holds for the search of both files.
\<close>

theorem feasibility_monotone_in_budget:
  assumes "d' \<le> d"
  shows "(case collect_paths (check_path MSG (sfc\<lparr>max_delay := d\<rparr>) Gp)
               (product_lists stage_nodes) [] of
            Inl e \<Rightarrow> collect_paths (check_path MSG (sfc\<lparr>max_delay := d'\<rparr>) Gp)
                        (product_lists stage_nodes) [] = Inl e
          | Inr paths \<Rightarrow>
              (\<exists>paths'. collect_paths (check_path MSG (sfc\<lparr>max_delay := d'\<rparr>) Gp)
                          (product_lists stage_nodes) [] = Inr paths'
                 \<and> paths' = filter (\<lambda>x. fst (snd x) \<le> d') paths
                 \<and> set paths' \<subseteq> set paths))
       \<and> (case collect_paths (check_path_bf MSG (sfc\<lparr>max_delay := d\<rparr>))
               (product_lists stage_nodes) [] of
            Inl e \<Rightarrow> collect_paths (check_path_bf MSG (sfc\<lparr>max_delay := d'\<rparr>))
                        (product_lists stage_nodes) [] = Inl e
          | Inr paths \<Rightarrow>
              (\<exists>paths'. collect_paths (check_path_bf MSG (sfc\<lparr>max_delay := d'\<rparr>))
                          (product_lists stage_nodes) [] = Inr paths'
                 \<and> paths' = filter (\<lambda>x. fst (snd x) \<le> d') paths
                 \<and> set paths' \<subseteq> set paths))"
proof -
  have w: "within d' = (\<lambda>x. fst (snd x) \<le> d')" by (simp add: within_def fun_eq_iff)
  have a: "collect_paths (check_path MSG (sfc\<lparr>max_delay := d'\<rparr>) Gp) (product_lists stage_nodes) []
     = (case collect_paths (check_path MSG (sfc\<lparr>max_delay := d\<rparr>) Gp) (product_lists stage_nodes) []
        of Inl e \<Rightarrow> Inl e | Inr paths \<Rightarrow> Inr (filter (within d') paths))"
    using collect_paths_budget[where body' = "check_path MSG (sfc\<lparr>max_delay := d'\<rparr>) Gp"
        and body = "check_path MSG (sfc\<lparr>max_delay := d\<rparr>) Gp" and P = "within d'"
        and cands = "product_lists stage_nodes" and acc = "[]"]
      check_path_budget[OF assms] by simp
  have b: "collect_paths (check_path_bf MSG (sfc\<lparr>max_delay := d'\<rparr>)) (product_lists stage_nodes) []
     = (case collect_paths (check_path_bf MSG (sfc\<lparr>max_delay := d\<rparr>)) (product_lists stage_nodes) []
        of Inl e \<Rightarrow> Inl e | Inr paths \<Rightarrow> Inr (filter (within d') paths))"
    using collect_paths_budget[where body' = "check_path_bf MSG (sfc\<lparr>max_delay := d'\<rparr>)"
        and body = "check_path_bf MSG (sfc\<lparr>max_delay := d\<rparr>)" and P = "within d'"
        and cands = "product_lists stage_nodes" and acc = "[]"]
      check_path_bf_budget[OF assms] by simp
  show ?thesis
    unfolding a b w by (simp split: sum.splits)
qed

theorem feasibility_monotone_in_budget_witness:
  "collect_paths (check_path Mc (Rw\<lparr>max_delay := 20\<rparr>) Gw) (product_lists snc) []
     = Inr [([(0, 0), (1, 1)], 4, 6), ([(1, 0), (0, 1)], 6, 9)]
   \<and> collect_paths (check_path Mc (Rw\<lparr>max_delay := 5\<rparr>) Gw) (product_lists snc) []
     = Inr [([(0, 0), (1, 1)], 4, 6)]
   \<and> collect_paths (check_path_bf Mc (Rw\<lparr>max_delay := 20\<rparr>)) (product_lists snc) []
     = Inr [([(0, 0), (1, 1)], 2, 3), ([(1, 0), (0, 1)], 2, 3)]
   \<and> collect_paths (check_path_bf Mc (Rw\<lparr>max_delay := 1\<rparr>)) (product_lists snc) []
     = Inr []"
proof -
  have h: "(5::int) \<le> 20" by simp
  have e: "collect_paths (check_path Mc (Rw\<lparr>max_delay := 20\<rparr>) Gw) (product_lists snc) []
     = Inr [([(0, 0), (1, 1)], 4, 6), ([(1, 0), (0, 1)], 6, 9)]"
    by code_simp
  from feasibility_monotone_in_budget[OF h, of Mc Rw Gw snc, THEN conjunct1]
  have a: "collect_paths (check_path Mc (Rw\<lparr>max_delay := 5\<rparr>) Gw) (product_lists snc) []
     = Inr [([(0, 0), (1, 1)], 4, 6)]"
    unfolding e by simp
  have h': "(1::int) \<le> 20" by simp
  have e': "collect_paths (check_path_bf Mc (Rw\<lparr>max_delay := 20\<rparr>)) (product_lists snc) []
     = Inr [([(0, 0), (1, 1)], 2, 3), ([(1, 0), (0, 1)], 2, 3)]"
    by code_simp
  from feasibility_monotone_in_budget[OF h', of Mc Rw Gw snc, THEN conjunct2]
  have b: "collect_paths (check_path_bf Mc (Rw\<lparr>max_delay := 1\<rparr>)) (product_lists snc) []
     = Inr []"
    unfolding e' by simp
  show ?thesis using e a e' b by simp
qed

section \<open>The totals of a candidate\<close>

text \<open>
  Claim C5, as amended. Let \<open>path\<close> be a non-empty candidate that passed the first
  two filters (pairwise distinct hosts, an edge between every consecutive pair), with
  its vertices nodes of the graph and its hosts and the two endpoints of the request
  nodes of the substrate. The loop body of \<open>find_feasible_path\<close> in \<open>MSG.py\<close> computes
  as total delay the sum of the delays of the edges between consecutive vertices, plus
  the delay of the shortest path from the source to the first host when the two differ
  and are connected, plus the delay of the shortest path from the last host to the
  destination when the two differ and are connected; a term is zero when the two
  coincide and also when they differ and no path connects them, and the candidate is
  not rejected for that. The total cost is computed the same way. The candidate is
  kept with these totals exactly when the total delay is within \<open>max_delay\<close>. The loop
  body of \<open>find_feasible_path\<close> in \<open>brute-force_SFC_placement.py\<close> has no such terms:
  its total delay and cost are the sums over the edges.
\<close>

theorem check_path_totals:
  assumes "path \<noteq> []"
    and "\<forall>v\<in>set path. nodes MSG v \<noteq> None \<and> has_node Gp (host_of MSG v)"
    and "has_node Gp (src sfc)" and "has_node Gp (dest sfc)"
    and "distinct (map (host_of MSG) path)"
    and "list_all (\<lambda>e. edges MSG e \<noteq> None) (hops path)"
  shows "check_path MSG sfc Gp path =
     Inr (if hop_delay MSG path
               + (if host_of MSG (hd path) = src sfc then 0
                  else if reachable Gp (src sfc) (host_of MSG (hd path))
                       then sp_delay Gp (src sfc) (host_of MSG (hd path)) else 0)
               + (if host_of MSG (last path) = dest sfc then 0
                  else if reachable Gp (host_of MSG (last path)) (dest sfc)
                       then sp_delay Gp (host_of MSG (last path)) (dest sfc) else 0)
             \<le> max_delay sfc
          then Some (path,
                 hop_delay MSG path
                   + (if host_of MSG (hd path) = src sfc then 0
                      else if reachable Gp (src sfc) (host_of MSG (hd path))
                           then sp_delay Gp (src sfc) (host_of MSG (hd path)) else 0)
                   + (if host_of MSG (last path) = dest sfc then 0
                      else if reachable Gp (host_of MSG (last path)) (dest sfc)
                           then sp_delay Gp (host_of MSG (last path)) (dest sfc) else 0),
                 hop_cost MSG path
                   + (if host_of MSG (hd path) = src sfc then 0
                      else if reachable Gp (src sfc) (host_of MSG (hd path))
                           then sp_cost Gp (src sfc) (host_of MSG (hd path)) else 0)
                   + (if host_of MSG (last path) = dest sfc then 0
                      else if reachable Gp (host_of MSG (last path)) (dest sfc)
                           then sp_cost Gp (host_of MSG (last path)) (dest sfc) else 0))
          else None)
     \<and> check_path_bf MSG sfc path =
         Inr (if hop_delay MSG path \<le> max_delay sfc
              then Some (path, hop_delay MSG path, hop_cost MSG path) else None)"
proof -
  have k: "\<forall>v\<in>set path. known Gp MSG v" using assms(2) by (simp add: known_def)
  have n: "\<forall>v\<in>set path. nodes MSG v \<noteq> None" using assms(2) by simp
  have ok: "chain_ok MSG path" using assms(5,6) by (simp add: chain_ok_def)
  have a: "check_path MSG sfc Gp path =
     Inr (if total_delay MSG sfc Gp path \<le> max_delay sfc
          then Some (path, total_delay MSG sfc Gp path, total_cost MSG sfc Gp path) else None)"
    using check_path_char[OF k assms(1,3,4)] ok by (simp add: feasible_def)
  have b: "check_path_bf MSG sfc path =
         Inr (if hop_delay MSG path \<le> max_delay sfc
              then Some (path, hop_delay MSG path, hop_cost MSG path) else None)"
    using check_path_bf_char[OF n, of sfc] ok by (simp add: feasible_bf_def)
  have d: "total_delay MSG sfc Gp path = hop_delay MSG path
               + (if host_of MSG (hd path) = src sfc then 0
                  else if reachable Gp (src sfc) (host_of MSG (hd path))
                       then sp_delay Gp (src sfc) (host_of MSG (hd path)) else 0)
               + (if host_of MSG (last path) = dest sfc then 0
                  else if reachable Gp (host_of MSG (last path)) (dest sfc)
                       then sp_delay Gp (host_of MSG (last path)) (dest sfc) else 0)"
    by (simp add: total_delay_def ingress_def egress_def)
  have c: "total_cost MSG sfc Gp path = hop_cost MSG path
                   + (if host_of MSG (hd path) = src sfc then 0
                      else if reachable Gp (src sfc) (host_of MSG (hd path))
                           then sp_cost Gp (src sfc) (host_of MSG (hd path)) else 0)
                   + (if host_of MSG (last path) = dest sfc then 0
                      else if reachable Gp (host_of MSG (last path)) (dest sfc)
                           then sp_cost Gp (host_of MSG (last path)) (dest sfc) else 0)"
    by (simp add: total_cost_def ingress_def egress_def)
  show ?thesis using a b unfolding d c by (rule conjI)
qed

theorem check_path_totals_witness:
  "check_path Mc Ru Gw [(1, 0), (0, 1)] = Inr (Some ([(1, 0), (0, 1)], 4, 6))
   \<and> check_path_bf Mc Ru [(1, 0), (0, 1)] = Inr (Some ([(1, 0), (0, 1)], 2, 3))"
proof -
  have h1: "[(1::nat, 0::nat), (0, 1)] \<noteq> []" by simp
  have h2: "\<forall>v\<in>set [(1, 0), (0, 1)]. nodes Mc v \<noteq> None \<and> has_node Gw (host_of Mc v)"
    by (simp add: Mc_def Gw_def host_of_def)
  have h3: "has_node Gw (src Ru)" "has_node Gw (dest Ru)"
    by (simp_all add: Ru_def Rw_def Gw_def)
  have h4: "distinct (map (host_of Mc) [(1, 0), (0, 1)])"
    by (simp add: Mc_def host_of_def)
  have h5: "list_all (\<lambda>e. edges Mc e \<noteq> None) (hops [(1, 0), (0, 1)])"
    by (simp add: Mc_def)
  have v: "hop_delay Mc [(1, 0), (0, 1)] = 2" "hop_cost Mc [(1, 0), (0, 1)] = 3"
    "host_of Mc (hd [(1, 0), (0, 1)]) = 1" "host_of Mc (last [(1, 0), (0, 1)]) = 0"
    "src Ru = 3" "dest Ru = 2" "max_delay Ru = 20"
    "reachable Gw 3 1 = False" "reachable Gw 0 2 = True"
    "sp_delay Gw 0 2 = 2" "sp_cost Gw 0 2 = 3"
    by (simp_all add: Mc_def Gw_def Ru_def Rw_def host_of_def hop_delay_def hop_cost_def
        sp_delay_def sp_cost_def)
  show ?thesis
    using check_path_totals[OF h1 h2 h3 h4 h5] unfolding v by simp
qed

text \<open>
  The search of \<open>brute-force_SFC_placement.py\<close> returns the chain on the hosts 0 and 1
  with delay 2 and cost 3, the sums over its one edge; with the way from the last
  host 1 to the destination 2 added, the totals would be 4 and 6.
\<close>

theorem find_feasible_path_bf_no_endpoint_terms:
  "find_feasible_path_bf Mc snc Rw = Inr (Some ([(0, 0), (1, 1)], 2, 3))
   \<and> total_delay Mc Rw Gw [(0, 0), (1, 1)] = 4
   \<and> total_cost Mc Rw Gw [(0, 0), (1, 1)] = 6"
  by code_simp

section \<open>An empty stage list\<close>

lemma product_lists_empty: "[] \<in> set xss \<Longrightarrow> product_lists xss = []"
  by (induction xss) auto

lemma find_feasible_path_empty_stage:
  "[] \<in> set stage_nodes \<Longrightarrow> find_feasible_path MSG stage_nodes sfc Gp = Inr None"
  by (simp add: find_feasible_path_def product_lists_empty min_by_cost_def)

text \<open>
  Claim C10. When one of the stage lists is empty, \<open>find_feasible_path\<close> returns
  \<open>None\<close>: the product of the lists has no element, so the loop body never runs and
  nothing can raise. In the loop body of \<open>run_simulation\<close>, where the search on the
  backup graph is not guarded by a test of the stage lists, an empty stage list of the
  backup graph therefore gives an accepted request without a backup: empty backup path,
  backup delay, backup cost, backup deployment cost and backup-delay-cost zero, and the
  ledger as the active reservation left it.
\<close>

theorem empty_stage_gives_no_path:
  "([] \<in> set stage_nodes \<longrightarrow> find_feasible_path MSG stage_nodes sfc Gp = Inr None)
   \<and> (construct_msg Gp sfc physical_nodes {} = Inr (MSG_active, stage_nodes_active)
        \<and> list_all (\<lambda>st. st \<noteq> []) stage_nodes_active
        \<and> find_feasible_path MSG_active stage_nodes_active sfc Gp
             = Inr (Some (path_active, delay_active, cost_active))
        \<and> reserve_resources path_active MSG_active physical_nodes = Inr (extra_cost_a, nodes1)
        \<and> construct_msg Gp sfc nodes1 (set (map fst path_active))
             = Inr (MSG_backup, stage_nodes_backup)
        \<and> [] \<in> set stage_nodes_backup
      \<longrightarrow> (\<exists>r h. place_request Gp physical_nodes sfc = Inr (nodes1, Some r, h)
             \<and> Active_Path r = path_active \<and> Backup_Path r = []
             \<and> Backup_Delay r = 0 \<and> Backup_Cost r = 0
             \<and> Deploy_Cost_backup r = 0 \<and> Backup_Delay_Cost r = 0
             \<and> Total_Cost r = cost_active + extra_cost_a))"
proof (intro conjI impI)
  assume "[] \<in> set stage_nodes"
  then show "find_feasible_path MSG stage_nodes sfc Gp = Inr None"
    by (rule find_feasible_path_empty_stage)
next
  assume a: "construct_msg Gp sfc physical_nodes {} = Inr (MSG_active, stage_nodes_active)
        \<and> list_all (\<lambda>st. st \<noteq> []) stage_nodes_active
        \<and> find_feasible_path MSG_active stage_nodes_active sfc Gp
             = Inr (Some (path_active, delay_active, cost_active))
        \<and> reserve_resources path_active MSG_active physical_nodes = Inr (extra_cost_a, nodes1)
        \<and> construct_msg Gp sfc nodes1 (set (map fst path_active))
             = Inr (MSG_backup, stage_nodes_backup)
        \<and> [] \<in> set stage_nodes_backup"
  then have b: "find_feasible_path MSG_backup stage_nodes_backup sfc Gp = Inr None"
    by (simp add: find_feasible_path_empty_stage)
  show "\<exists>r h. place_request Gp physical_nodes sfc = Inr (nodes1, Some r, h)
             \<and> Active_Path r = path_active \<and> Backup_Path r = []
             \<and> Backup_Delay r = 0 \<and> Backup_Cost r = 0
             \<and> Deploy_Cost_backup r = 0 \<and> Backup_Delay_Cost r = 0
             \<and> Total_Cost r = cost_active + extra_cost_a"
    using a b by (simp add: place_request_def)
qed

theorem empty_stage_gives_no_path_witness:
  "find_feasible_path Mc [[(0, 0)], []] Rw Gw = Inr None
   \<and> (\<exists>r h. place_request Gw Lw3 Rw = Inr (Lw3a, Some r, h)
             \<and> Active_Path r = [(0, 0), (2, 1)] \<and> Backup_Path r = []
             \<and> Total_Cost r = 3 + 7)"
proof -
  have c1: "case construct_msg Gw Rw Lw3 {} of Inl e \<Rightarrow> False | Inr x \<Rightarrow> True"
    by code_simp
  have h1: "construct_msg Gw Rw Lw3 {} = Inr (MAw, snAw)"
    using c1 by (simp add: MAw_def snAw_def split: sum.splits)
  have h2: "list_all (\<lambda>st. st \<noteq> []) snAw" by code_simp
  have h3: "find_feasible_path MAw snAw Rw Gw = Inr (Some ([(0, 0), (2, 1)], 2, 3))"
    by code_simp
  have h4: "reserve_resources [(0, 0), (2, 1)] MAw Lw3 = Inr (7, Lw3a)" by code_simp
  have c5: "case construct_msg Gw Rw Lw3a {0, 2} of Inl e \<Rightarrow> False | Inr x \<Rightarrow> True"
    by code_simp
  have h5: "construct_msg Gw Rw Lw3a (set (map fst [(0::nat, 0::nat), (2, 1)])) = Inr (MBw, snBw)"
    using c5 by (simp add: MBw_def snBw_def split: sum.splits)
  have h6: "[] \<in> set snBw" by code_simp
  have e: "[] \<in> set [[(0::nat, 0::nat)], []]" by simp
  note t = empty_stage_gives_no_path[of "[[(0, 0)], []]" Mc Rw Gw Lw3 MAw snAw
      "[(0, 0), (2, 1)]" 2 3 7 Lw3a MBw snBw]
  have a: "find_feasible_path Mc [[(0, 0)], []] Rw Gw = Inr None"
    using t[THEN conjunct1] e by blast
  have b: "\<exists>r h. place_request Gw Lw3 Rw = Inr (Lw3a, Some r, h)
             \<and> Active_Path r = [(0, 0), (2, 1)] \<and> Backup_Path r = []
             \<and> Total_Cost r = 3 + 7"
    using t[THEN conjunct2] h1 h2 h3 h4 h5 h6 by blast
  show ?thesis using a b by blast
qed

section \<open>Properties of the batch\<close>

lemma edge_loop_v_nodes:
  "edge_loop_v Gp u vs M = Inr M' \<Longrightarrow> nodes M' = nodes M"
proof (induction vs arbitrary: M)
  case Nil
  then show ?case by simp
next
  case (Cons v vs)
  have n: "\<And>a. nodes (add_edge M u v a) = nodes M" by (simp add: add_edge_def)
  from Cons.prems show ?case
    by (auto split: sum.splits if_splits dest!: Cons.IH simp: n)
qed

lemma edge_loop_u_nodes:
  "edge_loop_u Gp us vs M = Inr M' \<Longrightarrow> nodes M' = nodes M"
proof (induction us arbitrary: M)
  case Nil
  then show ?case by simp
next
  case (Cons u us)
  from Cons.prems show ?case
    by (auto split: sum.splits dest!: Cons.IH edge_loop_v_nodes)
qed

lemma edge_loop_i_nodes:
  "edge_loop_i Gp sn M = Inr M' \<Longrightarrow> nodes M' = nodes M"
proof (induction Gp sn M rule: edge_loop_i.induct)
  case (1 Gp us vs rest M)
  from "1.prems" obtain M1 where a: "edge_loop_u Gp us vs M = Inr M1"
    and b: "edge_loop_i Gp (vs # rest) M1 = Inr M'"
    by (auto split: sum.splits)
  show ?case using "1.IH"[OF a b] edge_loop_u_nodes[OF a] by simp
qed simp_all

lemma construct_msg_Inr:
  assumes "construct_msg Gp sfc pn used = Inr (M, sn)"
  shows "sn = stage_lists sfc pn used"
    and "nodes M v =
           (if snd v < length (stages sfc)
               \<and> v \<in> set (candidates pn used (snd v) (stages sfc ! snd v))
            then Some \<lparr>physical = fst v, stage = snd v, vcpu = stages sfc ! snd v\<rparr> else None)"
proof -
  obtain M0 sn0 where r0: "stages_loop 0 (stages sfc) used pn empty_msg [] = (M0, sn0)" by force
  from assms r0 have e: "edge_loop_i Gp sn0 M0 = Inr M" and s: "sn = sn0"
    by (auto simp: construct_msg_def split: sum.splits)
  show "sn = stage_lists sfc pn used"
    using stages_loop_snd[of 0 "stages sfc" used pn empty_msg "[]"] r0 s
    by (simp add: stage_lists_def)
  have "nodes M v = nodes M0 v" using edge_loop_i_nodes[OF e] by simp
  then show "nodes M v =
           (if snd v < length (stages sfc)
               \<and> v \<in> set (candidates pn used (snd v) (stages sfc ! snd v))
            then Some \<lparr>physical = fst v, stage = snd v, vcpu = stages sfc ! snd v\<rparr> else None)"
    using stages_loop_nodes[of 0 "stages sfc" used pn empty_msg "[]" v] r0
    by (simp add: empty_msg_def)
qed

lemma in_candidates:
  "(h, s') \<in> set (candidates pn used s d) \<longleftrightarrow>
     s' = s \<and> h \<notin> used \<and> (\<exists>n\<in>set pn. node_id n = h \<and> has_resources n d)"
  by (auto simp: candidates_def)

lemma stage_label:
  assumes "st \<in> set (stage_lists sfc pn used)" "v \<in> set st"
  shows "snd v < length (stages sfc)"
    and "v \<in> set (candidates pn used (snd v) (stages sfc ! snd v))"
    and "\<exists>n\<in>set pn. node_id n = fst v \<and> has_resources n (stages sfc ! snd v)"
    and "fst v \<notin> used"
proof -
  show a: "snd v < length (stages sfc)"
    and b: "v \<in> set (candidates pn used (snd v) (stages sfc ! snd v))"
    using in_stage_lists[OF assms] by simp_all
  obtain h s where v: "v = (h, s)" by (cases v)
  from b show "\<exists>n\<in>set pn. node_id n = fst v \<and> has_resources n (stages sfc ! snd v)"
    unfolding v by (simp add: in_candidates)
  from b show "fst v \<notin> used" unfolding v by (simp add: in_candidates)
qed

lemma seen_loop_True:
  "seen_loop M p seen = Inr True \<Longrightarrow>
     (\<forall>v\<in>set p. nodes M v \<noteq> None) \<and> distinct (map (host_of M) p)
       \<and> set (map (host_of M) p) \<inter> seen = {}"
proof (induction p arbitrary: seen)
  case Nil
  then show ?case by simp
next
  case (Cons v rest)
  from Cons.prems obtain a where a: "nodes M v = Some a"
    by (auto simp: physical_of_def split: option.splits sum.splits)
  then have p: "physical_of M v = Inr (host_of M v)"
    by (simp add: physical_of_def host_of_def)
  from Cons.prems p have ns: "host_of M v \<notin> seen"
    and r: "seen_loop M rest (insert (host_of M v) seen) = Inr True"
    by (auto split: if_splits)
  from Cons.IH[OF r] a ns show ?case by auto
qed

lemma check_path_Some:
  assumes "check_path M sfc Gp p = Inr (Some x)"
  shows "fst x = p" and "seen_loop M p {} = Inr True"
  using assms unfolding check_path_def
  by (auto simp: Let_def split: sum.splits option.splits list.splits prod.splits if_splits)

lemma collect_paths_mem:
  "collect_paths body cands acc = Inr paths \<Longrightarrow> x \<in> set paths \<Longrightarrow>
     x \<in> set acc \<or> (\<exists>p\<in>set cands. body p = Inr (Some x))"
proof (induction cands arbitrary: acc)
  case Nil
  then show ?case by simp
next
  case (Cons p rest)
  show ?case
  proof (cases "body p")
    case (Inl e)
    then show ?thesis using Cons.prems by simp
  next
    case (Inr o1)
    show ?thesis
    proof (cases o1)
      case None
      then show ?thesis using Inr Cons.prems Cons.IH[of acc] by auto
    next
      case (Some y)
      then have "collect_paths body rest (acc @ [y]) = Inr paths"
        using Inr Cons.prems by simp
      from Cons.IH[OF this Cons.prems(2)] show ?thesis using Inr Some by auto
    qed
  qed
qed

lemma min_by_cost_mem: "min_by_cost xs = Some r \<Longrightarrow> r \<in> set xs"
  using min_by_cost_Some[of xs r] by (auto simp: in_set_conv_nth)

lemma find_feasible_path_Some:
  assumes "find_feasible_path M sn sfc Gp = Inr (Some (p, d, c))"
  shows "p \<in> set (product_lists sn)" and "\<forall>v\<in>set p. nodes M v \<noteq> None"
    and "distinct (map (host_of M) p)"
proof -
  from assms obtain paths where
    c: "collect_paths (check_path M sfc Gp) (product_lists sn) [] = Inr paths"
    and m: "min_by_cost paths = Some (p, d, c)"
    by (auto simp: find_feasible_path_def split: sum.splits)
  from collect_paths_mem[OF c min_by_cost_mem[OF m]] obtain q where
    q: "q \<in> set (product_lists sn)" "check_path M sfc Gp q = Inr (Some (p, d, c))" by auto
  from check_path_Some[OF q(2)] have e: "q = p" and s: "seen_loop M p {} = Inr True" by auto
  show "p \<in> set (product_lists sn)" using q(1) e by simp
  show "\<forall>v\<in>set p. nodes M v \<noteq> None" "distinct (map (host_of M) p)"
    using seen_loop_True[OF s] by simp_all
qed

lemma aligned_lookup:
  assumes "aligned pn" "n \<in> set pn"
  shows "node_id n < length pn" and "pn ! node_id n = n"
proof -
  from assms(2) obtain i where i: "i < length pn" "pn ! i = n" by (auto simp: in_set_conv_nth)
  then have "node_id n = i" using assms(1) by (auto simp: aligned_def)
  then show "node_id n < length pn" "pn ! node_id n = n" using i by simp_all
qed

lemma distinct_filter_single:
  "distinct (map f xs) \<Longrightarrow> x \<in> set xs \<Longrightarrow> filter (\<lambda>l. f l = f x) xs = [x]"
proof (induction xs)
  case Nil
  then show ?case by simp
next
  case (Cons y ys)
  show ?case
  proof (cases "x = y")
    case True
    have "f y \<notin> f ` set ys" using Cons.prems(1) by simp
    then have "\<forall>l\<in>set ys. f l \<noteq> f y" by (metis imageI)
    then have "filter (\<lambda>l. f l = f y) ys = []" by (simp add: filter_empty_conv)
    then show ?thesis using True by simp
  next
    case False
    then have x: "x \<in> set ys" using Cons.prems(2) by simp
    then have "f x \<in> f ` set ys" by (rule imageI)
    moreover have "f y \<notin> f ` set ys" using Cons.prems(1) by simp
    ultimately have "f y \<noteq> f x" by metis
    then show ?thesis using Cons.IH x Cons.prems(1) by simp
  qed
qed

lemma reserve_chain:
  assumes al: "aligned pn" and ch: "chain_of M pn path"
  shows "\<exists>extra pn'. reserve_resources path M pn = Inr (extra, pn')
     \<and> length pn' = length pn \<and> map node_id pn' = map node_id pn
     \<and> (within_capacity pn \<longrightarrow> within_capacity pn')"
proof -
  have host: "\<And>v. v \<in> set path \<Longrightarrow> host_of M v = fst v \<and> fst v < length pn
      \<and> has_resources (pn ! fst v) (demand_of M v)"
  proof -
    fix v assume "v \<in> set path"
    then obtain a n where a: "nodes M v = Some a" "physical a = fst v" "n \<in> set pn"
      "node_id n = fst v" "has_resources n (vcpu a)"
      using ch unfolding chain_of_def by blast
    from aligned_lookup[OF al a(3)] a
    show "host_of M v = fst v \<and> fst v < length pn \<and> has_resources (pn ! fst v) (demand_of M v)"
      by (simp add: host_of_def demand_of_def)
  qed
  have pre: "\<forall>l\<in>set path. \<exists>a. nodes M l = Some a \<and> physical a < length pn"
  proof
    fix l assume l: "l \<in> set path"
    then obtain a where "nodes M l = Some a" "physical a = fst l"
      using ch unfolding chain_of_def by blast
    then show "\<exists>a. nodes M l = Some a \<and> physical a < length pn" using host[OF l] by simp
  qed
  from reserve_loop_closed[OF pre, of 0] obtain extra pn' where
    r: "reserve_loop path M pn 0 = Inr (extra, pn')" and len: "length pn' = length pn"
    and f: "\<forall>i<length pn. node_id (pn' ! i) = node_id (pn ! i) \<and> cpu (pn' ! i) = cpu (pn ! i)
          \<and> activated (pn' ! i) = (activated (pn ! i) \<or> i \<in> host_of M ` set path)
          \<and> used_cpu (pn' ! i) = used_cpu (pn ! i)
               + sum_list (map (demand_of M) (filter (\<lambda>l. host_of M l = i) path))"
    by blast
  have ids: "map node_id pn' = map node_id pn"
  proof (rule nth_equalityI)
    show "length (map node_id pn') = length (map node_id pn)" using len by simp
    fix i assume "i < length (map node_id pn')"
    then have i: "i < length pn" using len by simp
    then have "node_id (pn' ! i) = node_id (pn ! i)" using f by blast
    then show "map node_id pn' ! i = map node_id pn ! i" using i len by simp
  qed
  have cap: "within_capacity pn \<longrightarrow> within_capacity pn'"
  proof
    assume w: "within_capacity pn"
    show "within_capacity pn'" unfolding within_capacity_def
    proof
      fix n assume "n \<in> set pn'"
      then obtain i where i: "i < length pn" "pn' ! i = n"
        using len by (auto simp: in_set_conv_nth)
      have old: "used_cpu (pn ! i) \<le> cpu (pn ! i)"
        using w i(1) by (simp add: within_capacity_def)
      have u: "used_cpu n = used_cpu (pn ! i)
               + sum_list (map (demand_of M) (filter (\<lambda>l. host_of M l = i) path))"
        and c: "cpu n = cpu (pn ! i)" using f i by auto
      show "used_cpu n \<le> cpu n"
      proof (cases "\<exists>v\<in>set path. host_of M v = i")
        case False
        then have "filter (\<lambda>l. host_of M l = i) path = []" by (auto simp: filter_empty_conv)
        then show ?thesis using u c old by simp
      next
        case True
        then obtain v where v: "v \<in> set path" "host_of M v = i" by blast
        have d: "distinct (map (host_of M) path)" using ch by (simp add: chain_of_def)
        have "filter (\<lambda>l. host_of M l = i) path = [v]"
          using distinct_filter_single[OF d v(1)] v(2) by simp
        moreover have "has_resources (pn ! i) (demand_of M v)" using host[OF v(1)] v(2) by simp
        ultimately show ?thesis using u c by (simp add: has_resources_def)
      qed
    qed
  qed
  show ?thesis using r len ids cap by (simp add: reserve_resources_def)
qed

lemma same_ids:
  assumes "map node_id pn' = map node_id pn"
  shows "aligned pn' = aligned pn" and "in_substrate Gp pn' = in_substrate Gp pn"
proof -
  have len: "length pn' = length pn" using assms by (rule map_eq_imp_length_eq)
  have nth: "\<And>i. i < length pn \<Longrightarrow> node_id (pn' ! i) = node_id (pn ! i)"
  proof -
    fix i assume i: "i < length pn"
    have "map node_id pn' ! i = map node_id pn ! i" using assms by simp
    then show "node_id (pn' ! i) = node_id (pn ! i)" using i len by simp
  qed
  show "aligned pn' = aligned pn" using len nth by (simp add: aligned_def)
  have "set (map node_id pn') = set (map node_id pn)" using assms by simp
  then have im: "node_id ` set pn' = node_id ` set pn" by simp
  have "\<And>P. (\<forall>n\<in>set pn'. P (node_id n)) = (\<forall>n\<in>set pn. P (node_id n))"
  proof -
    fix P :: "nat \<Rightarrow> bool"
    have "(\<forall>n\<in>set pn'. P (node_id n)) = (\<forall>k\<in>node_id ` set pn'. P k)" by blast
    also have "\<dots> = (\<forall>k\<in>node_id ` set pn. P k)" by (simp only: im)
    also have "\<dots> = (\<forall>n\<in>set pn. P (node_id n))" by blast
    finally show "(\<forall>n\<in>set pn'. P (node_id n)) = (\<forall>n\<in>set pn. P (node_id n))" .
  qed
  then show "in_substrate Gp pn' = in_substrate Gp pn" by (simp add: in_substrate_def)
qed

lemma place_request_None:
  assumes "place_request Gp pn sfc = Inr (pn', None, h)"
  shows "pn' = pn \<and> (h = [pn] \<or> h = [pn, pn])
     \<and> (\<exists>MA snA. construct_msg Gp sfc pn {} = Inr (MA, snA)
           \<and> (if list_all (\<lambda>st. st \<noteq> []) snA
               then find_feasible_path MA snA sfc Gp = Inr None \<and> h = [pn, pn]
               else h = [pn]))"
  using assms unfolding place_request_def
  by (auto simp: Let_def split: sum.splits if_splits option.splits prod.splits)

lemma place_request_Some:
  assumes "place_request Gp pn sfc = Inr (pn', Some r, h)"
  shows "\<exists>MA snA n1 MB snB.
     construct_msg Gp sfc pn {} = Inr (MA, snA)
     \<and> list_all (\<lambda>st. st \<noteq> []) snA
     \<and> find_feasible_path MA snA sfc Gp
          = Inr (Some (Active_Path r, Active_Delay r, Active_Cost r))
     \<and> reserve_resources (Active_Path r) MA pn = Inr (Deploy_Cost_active r, n1)
     \<and> construct_msg Gp sfc n1 (set (map fst (Active_Path r))) = Inr (MB, snB)
     \<and> ((find_feasible_path MB snB sfc Gp = Inr None
            \<and> Backup_Path r = [] \<and> Backup_Delay r = 0 \<and> Backup_Cost r = 0
            \<and> Deploy_Cost_backup r = 0 \<and> Backup_Delay_Cost r = 0
            \<and> Total_Cost r = Active_Cost r + Deploy_Cost_active r
            \<and> pn' = n1 \<and> h = [pn, pn, n1, n1, n1])
         \<or> (find_feasible_path MB snB sfc Gp
               = Inr (Some (Backup_Path r, Backup_Delay r, Backup_Cost r))
            \<and> reserve_resources (Backup_Path r) MB n1 = Inr (Deploy_Cost_backup r, pn')
            \<and> backup_delay_loop Gp MA MB (zip (Active_Path r) (Backup_Path r)) 0
                 = Inr (Backup_Delay_Cost r)
            \<and> Total_Cost r = Active_Cost r + Backup_Cost r + Deploy_Cost_active r
                 + Deploy_Cost_backup r + Backup_Delay_Cost r
            \<and> h = [pn, pn, n1, n1, n1, pn']))"
  using assms unfolding place_request_def
  by (auto simp: Let_def split: sum.splits if_splits option.splits prod.splits)

lemma constructed_label:
  assumes c: "construct_msg Gp sfc pn used = Inr (M, sn)"
    and st: "st \<in> set sn" and v: "v \<in> set st"
  shows "nodes M v = Some \<lparr>physical = fst v, stage = snd v, vcpu = stages sfc ! snd v\<rparr>"
    and "\<exists>n\<in>set pn. node_id n = fst v \<and> has_resources n (stages sfc ! snd v)"
    and "fst v \<notin> used"
    and "host_of M v = fst v"
proof -
  have s: "st \<in> set (stage_lists sfc pn used)" using construct_msg_Inr(1)[OF c] st by simp
  show n: "nodes M v = Some \<lparr>physical = fst v, stage = snd v, vcpu = stages sfc ! snd v\<rparr>"
    using construct_msg_Inr(2)[OF c, of v] stage_label(1,2)[OF s v] by simp
  show "\<exists>n\<in>set pn. node_id n = fst v \<and> has_resources n (stages sfc ! snd v)"
    by (rule stage_label(3)[OF s v])
  show "fst v \<notin> used" by (rule stage_label(4)[OF s v])
  show "host_of M v = fst v" using n by (simp add: host_of_def)
qed

lemma constructed_known:
  assumes c: "construct_msg Gp sfc pn used = Inr (M, sn)" and i: "in_substrate Gp pn"
  shows "\<forall>st\<in>set sn. \<forall>v\<in>set st. known Gp M v"
proof (intro ballI)
  fix st v assume st: "st \<in> set sn" and v: "v \<in> set st"
  from constructed_label(2)[OF c st v] obtain n where "n \<in> set pn" "node_id n = fst v" by blast
  then have "has_node Gp (fst v)" using i by (auto simp: in_substrate_def)
  then show "known Gp M v"
    using constructed_label(1,4)[OF c st v] by (simp add: known_def)
qed

lemma constructed_chain:
  assumes c: "construct_msg Gp sfc pn used = Inr (M, sn)"
    and f: "find_feasible_path M sn sfc Gp = Inr (Some (p, d, cst))"
  shows "chain_of M pn p" and "\<forall>v\<in>set p. fst v \<notin> used \<and> physical_of M v = Inr (fst v)"
    and "\<forall>v\<in>set p. \<exists>st\<in>set sn. v \<in> set st"
proof -
  have mem: "\<And>v. v \<in> set p \<Longrightarrow> \<exists>st\<in>set sn. v \<in> set st"
    using in_product_lists_mem[OF find_feasible_path_Some(1)[OF f]] by blast
  then show "\<forall>v\<in>set p. \<exists>st\<in>set sn. v \<in> set st" by blast
  show "chain_of M pn p" unfolding chain_of_def
  proof (intro conjI ballI)
    show "distinct (map (host_of M) p)" by (rule find_feasible_path_Some(3)[OF f])
    fix v assume "v \<in> set p"
    then obtain st where st: "st \<in> set sn" "v \<in> set st" using mem by blast
    from constructed_label(1,2)[OF c st]
    show "\<exists>a. nodes M v = Some a \<and> physical a = fst v
             \<and> (\<exists>n\<in>set pn. node_id n = fst v \<and> has_resources n (vcpu a))"
      by simp
  qed
  show "\<forall>v\<in>set p. fst v \<notin> used \<and> physical_of M v = Inr (fst v)"
  proof
    fix v assume "v \<in> set p"
    then obtain st where st: "st \<in> set sn" "v \<in> set st" using mem by blast
    from constructed_label(1,3)[OF c st]
    show "fst v \<notin> used \<and> physical_of M v = Inr (fst v)" by (simp add: physical_of_def)
  qed
qed

lemma backup_delay_loop_total:
  assumes "\<forall>x\<in>set zs. known Gp MA (fst x) \<and> known Gp MB (snd x)"
  shows "\<exists>c. backup_delay_loop Gp MA MB zs acc = Inr c"
  using assms
proof (induction zs arbitrary: acc)
  case Nil
  then show ?case by simp
next
  case (Cons z zs)
  obtain a b where z: "z = (a, b)" by (cases z)
  have ka: "known Gp MA a" and kb: "known Gp MB b" using Cons.prems z by simp_all
  have pa: "physical_of MA a = Inr (host_of MA a)" and pb: "physical_of MB b = Inr (host_of MB b)"
    using known_physical_of[OF ka] known_physical_of[OF kb] by simp_all
  have hp: "has_path Gp (host_of MA a) (host_of MB b)
      = Inr (reachable Gp (host_of MA a) (host_of MB b))"
    using ka kb by (simp add: has_path_def known_def)
  have r: "\<And>acc'. \<exists>c. backup_delay_loop Gp MA MB zs acc' = Inr c"
    using Cons.IH Cons.prems by simp
  show ?case unfolding z using r by (simp add: pa pb hp)
qed

lemma search_total:
  assumes c: "construct_msg Gp sfc pn used = Inr (M, sn)"
    and i: "in_substrate Gp pn" and ok: "request_ok Gp sfc"
  shows "\<exists>r. find_feasible_path M sn sfc Gp = Inr r"
proof -
  have "sn = stage_lists sfc pn used" by (rule construct_msg_Inr(1)[OF c])
  then have ne: "sn \<noteq> []" using ok by (simp add: stage_lists_def request_ok_def)
  from find_feasible_path_char[OF ne constructed_known[OF c i]] ok
  show ?thesis unfolding request_ok_def by blast
qed

lemma place_request_total:
  assumes al: "aligned pn" and i: "in_substrate Gp pn" and ok: "request_ok Gp sfc"
  shows "\<exists>pn' res h. place_request Gp pn sfc = Inr (pn', res, h)
     \<and> map node_id pn' = map node_id pn
     \<and> (within_capacity pn \<longrightarrow> within_capacity pn' \<and> (\<forall>L\<in>set h. within_capacity L))"
proof -
  from construct_msg_char[OF i[unfolded in_substrate_def], of sfc "{}"] obtain MA snA where
    cA: "construct_msg Gp sfc pn {} = Inr (MA, snA)" by blast
  from search_total[OF cA i ok] obtain rA where
    fA: "find_feasible_path MA snA sfc Gp = Inr rA" by blast
  show ?thesis
  proof (cases "list_all (\<lambda>st. st \<noteq> []) snA")
    case False
    then have "place_request Gp pn sfc = Inr (pn, None, [pn])"
      by (simp add: place_request_def cA)
    then show ?thesis by simp
  next
    case True
    show ?thesis
    proof (cases rA)
      case None
      then have "place_request Gp pn sfc = Inr (pn, None, [pn, pn])"
        using True by (simp add: place_request_def cA fA)
      then show ?thesis by simp
    next
      case (Some t)
      obtain pa da ca where t: "t = (pa, da, ca)" by (cases t)
      have fA': "find_feasible_path MA snA sfc Gp = Inr (Some (pa, da, ca))"
        using fA Some t by simp
      from reserve_chain[OF al constructed_chain(1)[OF cA fA']] obtain ea n1 where
        rA: "reserve_resources pa MA pn = Inr (ea, n1)"
        and ids1: "map node_id n1 = map node_id pn"
        and cap1: "within_capacity pn \<longrightarrow> within_capacity n1" by blast
      have al1: "aligned n1" and i1: "in_substrate Gp n1"
        using same_ids[OF ids1] al i by simp_all
      from construct_msg_char[OF i1[unfolded in_substrate_def], of sfc "set (map fst pa)"]
      obtain MB snB where
        cB: "construct_msg Gp sfc n1 (set (map fst pa)) = Inr (MB, snB)" by blast
      from search_total[OF cB i1 ok] obtain rB where
        fB: "find_feasible_path MB snB sfc Gp = Inr rB" by blast
      show ?thesis
      proof (cases rB)
        case None
        then have "\<exists>r. place_request Gp pn sfc = Inr (n1, Some r, [pn, pn, n1, n1, n1])"
          using True by (simp add: place_request_def cA fA' rA cB[unfolded set_map] fB)
        then show ?thesis using ids1 cap1 by auto
      next
        case (Some tb)
        obtain pb db cb where tb: "tb = (pb, db, cb)" by (cases tb)
        have fB': "find_feasible_path MB snB sfc Gp = Inr (Some (pb, db, cb))"
          using fB Some tb by simp
        from reserve_chain[OF al1 constructed_chain(1)[OF cB fB']] obtain eb n2 where
          rB: "reserve_resources pb MB n1 = Inr (eb, n2)"
          and ids2: "map node_id n2 = map node_id n1"
          and cap2: "within_capacity n1 \<longrightarrow> within_capacity n2" by blast
        have kz: "\<forall>x\<in>set (zip pa pb). known Gp MA (fst x) \<and> known Gp MB (snd x)"
        proof
          fix x assume x: "x \<in> set (zip pa pb)"
          then have "fst x \<in> set pa" "snd x \<in> set pb"
            by (metis prod.collapse set_zip_leftD, metis prod.collapse x set_zip_rightD)
          then show "known Gp MA (fst x) \<and> known Gp MB (snd x)"
            using constructed_chain(3)[OF cA fA'] constructed_chain(3)[OF cB fB']
              constructed_known[OF cA i] constructed_known[OF cB i1] by blast
        qed
        from backup_delay_loop_total[OF kz, of 0] obtain bdc where
          bd: "backup_delay_loop Gp MA MB (zip pa pb) 0 = Inr bdc" by blast
        have "\<exists>r. place_request Gp pn sfc = Inr (n2, Some r, [pn, pn, n1, n1, n1, n2])"
          using True by (simp add: place_request_def cA fA' rA cB[unfolded set_map] fB' rB bd)
        then show ?thesis using ids1 ids2 cap1 cap2 by auto
      qed
    qed
  qed
qed

lemma request_loop_total:
  assumes "aligned pn" "in_substrate Gp pn" "\<forall>sfc\<in>set reqs. request_ok Gp sfc"
    "within_capacity pn" "\<forall>L\<in>set hist. within_capacity L"
  shows "\<exists>pn' pls hist'. request_loop Gp reqs pn pl hist = Inr (pn', pls, hist')
     \<and> within_capacity pn' \<and> (\<forall>L\<in>set hist'. within_capacity L)"
  using assms
proof (induction reqs arbitrary: pn pl hist)
  case Nil
  then show ?case by simp
next
  case (Cons sfc rest)
  have ok: "request_ok Gp sfc" using Cons.prems(3) by simp
  from place_request_total[OF Cons.prems(1,2) ok] Cons.prems(4) obtain pn1 res h where
    p: "place_request Gp pn sfc = Inr (pn1, res, h)"
    and ids: "map node_id pn1 = map node_id pn"
    and cap: "within_capacity pn1" "\<forall>L\<in>set h. within_capacity L" by blast
  have al1: "aligned pn1" and i1: "in_substrate Gp pn1"
    using same_ids[OF ids] Cons.prems(1,2) by simp_all
  have h1: "\<forall>L\<in>set (hist @ h). within_capacity L" using Cons.prems(5) cap(2) by auto
  have r: "\<forall>sfc\<in>set rest. request_ok Gp sfc" using Cons.prems(3) by simp
  from Cons.IH[OF al1 i1 r cap(1) h1]
  show ?case by (simp add: p)
qed

section \<open>Accepted requests\<close>

text \<open>
  Claim C3. For an accepted request, no host id of the active path is a host id of the
  backup path (which is empty when no backup was found). The backup graph is the one
  \<open>construct_msg\<close> builds with the host ids of the active path as the exclusion set;
  every vertex of either path carries as its \<open>physical\<close> attribute the host id of its
  name, and no vertex of the backup path is on an excluded host.
\<close>

theorem active_backup_disjoint:
  assumes "place_request Gp physical_nodes sfc = Inr (nodes', Some r, h)"
  shows "set (map fst (Active_Path r)) \<inter> set (map fst (Backup_Path r)) = {}
     \<and> (\<exists>MSG_active sa nodes1 MSG_backup sb.
           construct_msg Gp sfc physical_nodes {} = Inr (MSG_active, sa)
         \<and> construct_msg Gp sfc nodes1 (set (map fst (Active_Path r))) = Inr (MSG_backup, sb)
         \<and> (\<forall>v\<in>set (Active_Path r). physical_of MSG_active v = Inr (fst v))
         \<and> (\<forall>v\<in>set (Backup_Path r). physical_of MSG_backup v = Inr (fst v)
                \<and> fst v \<notin> set (map fst (Active_Path r))))"
proof -
  from place_request_Some[OF assms] obtain MA snA n1 MB snB where
    cA: "construct_msg Gp sfc physical_nodes {} = Inr (MA, snA)"
    and fA: "find_feasible_path MA snA sfc Gp
          = Inr (Some (Active_Path r, Active_Delay r, Active_Cost r))"
    and cB: "construct_msg Gp sfc n1 (set (map fst (Active_Path r))) = Inr (MB, snB)"
    and alt: "(find_feasible_path MB snB sfc Gp = Inr None \<and> Backup_Path r = [])
         \<or> find_feasible_path MB snB sfc Gp
               = Inr (Some (Backup_Path r, Backup_Delay r, Backup_Cost r))"
    by blast
  have a: "\<forall>v\<in>set (Active_Path r). physical_of MA v = Inr (fst v)"
    using constructed_chain(2)[OF cA fA] by blast
  have b: "\<forall>v\<in>set (Backup_Path r). physical_of MB v = Inr (fst v)
                \<and> fst v \<notin> set (map fst (Active_Path r))"
  proof (cases "Backup_Path r = []")
    case True
    then show ?thesis by simp
  next
    case False
    then have "find_feasible_path MB snB sfc Gp
               = Inr (Some (Backup_Path r, Backup_Delay r, Backup_Cost r))"
      using alt by blast
    from constructed_chain(2)[OF cB this] show ?thesis by blast
  qed
  have d: "set (map fst (Active_Path r)) \<inter> set (map fst (Backup_Path r)) = {}"
  proof (rule ccontr)
    assume "set (map fst (Active_Path r)) \<inter> set (map fst (Backup_Path r)) \<noteq> {}"
    then obtain x where x: "x \<in> set (map fst (Active_Path r))" "x \<in> set (map fst (Backup_Path r))"
      by blast
    from x(2) obtain v where v: "v \<in> set (Backup_Path r)" "fst v = x"
      unfolding set_map by blast
    then have "x \<notin> set (map fst (Active_Path r))" using b by blast
    then show False using x(1) by simp
  qed
  show ?thesis using d cA cB a b by blast
qed

theorem active_backup_disjoint_witness:
  "\<exists>nodes' r h. place_request G4 L4 Rw = Inr (nodes', Some r, h)
     \<and> Active_Path r = [(0, 0), (2, 1)] \<and> Backup_Path r = [(1, 0), (3, 1)]
     \<and> set (map fst (Active_Path r)) \<inter> set (map fst (Backup_Path r)) = {}"
proof -
  have "case place_request G4 L4 Rw of
          Inr (nodes', Some r, h) \<Rightarrow>
            Active_Path r = [(0, 0), (2, 1)] \<and> Backup_Path r = [(1, 0), (3, 1)]
        | _ \<Rightarrow> False"
    by code_simp
  then obtain nodes' r h where e: "place_request G4 L4 Rw = Inr (nodes', Some r, h)"
    and p: "Active_Path r = [(0, 0), (2, 1)]" "Backup_Path r = [(1, 0), (3, 1)]"
    by (auto split: sum.splits option.splits prod.splits)
  from active_backup_disjoint[OF e]
  have "set (map fst (Active_Path r)) \<inter> set (map fst (Backup_Path r)) = {}" by blast
  with e p show ?thesis by blast
qed

text \<open>
  The loop body of \<open>simulate_with_msg_and_brute\<close> taken apart: what an outcome with a
  row says about the calls that led to it.
\<close>

lemma compare_request_Some:
  assumes "compare_request G all_nodes pn sfc = Inr (Some c)"
  shows "\<exists>MA snA ca U MB snB.
     construct_msg G sfc pn {} = Inr (MA, snA)
     \<and> find_feasible_path_bf MA snA sfc
          = Inr (Some (MSG_Active_Path c, MSG_Active_Delay c, ca))
     \<and> used_nodes_of MA (MSG_Active_Path c) {} = Inr U
     \<and> construct_msg G sfc pn U = Inr (MB, snB)
     \<and> ((find_feasible_path_bf MB snB sfc = Inr None
            \<and> MSG_Backup_Path c = [] \<and> MSG_Backup_Delay c = 0
            \<and> MSG_Total_Cost c = ca)
         \<or> (\<exists>cb bdc.
              find_feasible_path_bf MB snB sfc
                = Inr (Some (MSG_Backup_Path c, MSG_Backup_Delay c, cb))
            \<and> backup_delay_loop G MA MB (zip (MSG_Active_Path c) (MSG_Backup_Path c)) 0
                 = Inr bdc
            \<and> MSG_Total_Cost c = ca + cb + bdc))"
  using assms unfolding compare_request_def
  by (auto simp: Let_def split: sum.splits if_splits option.splits prod.splits)

text \<open>
  Every row \<open>simulate_with_msg_and_brute\<close> returns is the row of the loop body for one
  of the requests, over the ledger as it was built.
\<close>

lemma compare_loop_rows:
  "compare_loop G all_nodes reqs pn acc = Inr rows \<Longrightarrow> c \<in> set rows
   \<Longrightarrow> c \<in> set acc \<or> (\<exists>sfc\<in>set reqs. compare_request G all_nodes pn sfc = Inr (Some c))"
proof (induction reqs arbitrary: acc)
  case Nil
  then show ?case by simp
next
  case (Cons sfc rest)
  from Cons.prems(1) obtain result where
    b: "compare_request G all_nodes pn sfc = Inr result"
    and l: "compare_loop G all_nodes rest pn
              (case result of None \<Rightarrow> acc | Some c \<Rightarrow> acc @ [c]) = Inr rows"
    by (auto split: sum.splits)
  from Cons.IH[OF l Cons.prems(2)] b show ?case
    by (cases result) auto
qed

lemma simulate_with_msg_and_brute_rows:
  assumes "simulate_with_msg_and_brute G all_nodes sfc_requests = Inr rows" and "c \<in> set rows"
  shows "\<exists>sfc\<in>set sfc_requests. compare_request G all_nodes fresh_nodes_bf sfc = Inr (Some c)"
  using compare_loop_rows[OF assms[unfolded simulate_with_msg_and_brute_def]] by simp

text \<open>
  Claim C7. For a request \<open>run_simulation\<close> of \<open>MSG.py\<close> accepts, the recorded total
  cost is the active cost plus the backup cost plus the active deployment cost plus
  the backup deployment cost plus the backup-delay-cost. The recorded active cost is
  the cost the search returned for the active path and the active deployment cost is
  what \<open>reserve_resources\<close> returned for it. When the backup search returns \<open>None\<close>, the
  backup cost, the backup deployment cost and the backup-delay-cost are recorded as
  zero and the total is the active cost plus the active deployment cost; otherwise
  they are what the backup search, the backup reservation and the loop over the stage
  pairs returned.

  For a request \<open>simulate_with_msg_and_brute\<close> of \<open>brute-force_SFC_placement.py\<close>
  accepts, the recorded total cost has no deployment term: it is the cost the search
  returned for the active path, plus the cost it returned for the backup path and the
  backup-delay-cost of the loop over the stage pairs when a backup path was found;
  with no backup path it is the active cost alone.
\<close>

theorem total_cost_of_accepted_request:
  "(place_request Gp physical_nodes sfc = Inr (nodes', Some r, h) \<longrightarrow>
      Total_Cost r = Active_Cost r + Backup_Cost r + Deploy_Cost_active r
           + Deploy_Cost_backup r + Backup_Delay_Cost r
     \<and> (\<exists>MSG_active sa nodes1 MSG_backup sb.
           construct_msg Gp sfc physical_nodes {} = Inr (MSG_active, sa)
         \<and> find_feasible_path MSG_active sa sfc Gp
              = Inr (Some (Active_Path r, Active_Delay r, Active_Cost r))
         \<and> reserve_resources (Active_Path r) MSG_active physical_nodes
              = Inr (Deploy_Cost_active r, nodes1)
         \<and> construct_msg Gp sfc nodes1 (set (map fst (Active_Path r))) = Inr (MSG_backup, sb)
         \<and> ((find_feasible_path MSG_backup sb sfc Gp = Inr None
                \<and> Backup_Path r = [] \<and> Backup_Cost r = 0 \<and> Deploy_Cost_backup r = 0
                \<and> Backup_Delay_Cost r = 0
                \<and> Total_Cost r = Active_Cost r + Deploy_Cost_active r)
             \<or> (find_feasible_path MSG_backup sb sfc Gp
                   = Inr (Some (Backup_Path r, Backup_Delay r, Backup_Cost r))
                \<and> reserve_resources (Backup_Path r) MSG_backup nodes1
                     = Inr (Deploy_Cost_backup r, nodes')
                \<and> backup_delay_loop Gp MSG_active MSG_backup
                     (zip (Active_Path r) (Backup_Path r)) 0 = Inr (Backup_Delay_Cost r)))))
   \<and> (compare_request Gp all_nodes physical_nodes sfc = Inr (Some c) \<longrightarrow>
       (\<exists>MSG_active sa cost_active used_nodes MSG_backup sb.
           construct_msg Gp sfc physical_nodes {} = Inr (MSG_active, sa)
         \<and> find_feasible_path_bf MSG_active sa sfc
              = Inr (Some (MSG_Active_Path c, MSG_Active_Delay c, cost_active))
         \<and> used_nodes_of MSG_active (MSG_Active_Path c) {} = Inr used_nodes
         \<and> construct_msg Gp sfc physical_nodes used_nodes = Inr (MSG_backup, sb)
         \<and> ((find_feasible_path_bf MSG_backup sb sfc = Inr None
                \<and> MSG_Backup_Path c = [] \<and> MSG_Backup_Delay c = 0
                \<and> MSG_Total_Cost c = cost_active)
             \<or> (\<exists>cost_backup backup_delay_cost.
                  find_feasible_path_bf MSG_backup sb sfc
                    = Inr (Some (MSG_Backup_Path c, MSG_Backup_Delay c, cost_backup))
                \<and> backup_delay_loop Gp MSG_active MSG_backup
                     (zip (MSG_Active_Path c) (MSG_Backup_Path c)) 0 = Inr backup_delay_cost
                \<and> MSG_Total_Cost c = cost_active + cost_backup + backup_delay_cost))))"
proof (rule conjI; rule impI)
  assume assms: "place_request Gp physical_nodes sfc = Inr (nodes', Some r, h)"
  from place_request_Some[OF assms] obtain MA snA n1 MB snB where
    cA: "construct_msg Gp sfc physical_nodes {} = Inr (MA, snA)"
    and fA: "find_feasible_path MA snA sfc Gp
          = Inr (Some (Active_Path r, Active_Delay r, Active_Cost r))"
    and rA: "reserve_resources (Active_Path r) MA physical_nodes = Inr (Deploy_Cost_active r, n1)"
    and cB: "construct_msg Gp sfc n1 (set (map fst (Active_Path r))) = Inr (MB, snB)"
    and alt: "(find_feasible_path MB snB sfc Gp = Inr None
            \<and> Backup_Path r = [] \<and> Backup_Delay r = 0 \<and> Backup_Cost r = 0
            \<and> Deploy_Cost_backup r = 0 \<and> Backup_Delay_Cost r = 0
            \<and> Total_Cost r = Active_Cost r + Deploy_Cost_active r
            \<and> nodes' = n1 \<and> h = [physical_nodes, physical_nodes, n1, n1, n1])
         \<or> (find_feasible_path MB snB sfc Gp
               = Inr (Some (Backup_Path r, Backup_Delay r, Backup_Cost r))
            \<and> reserve_resources (Backup_Path r) MB n1 = Inr (Deploy_Cost_backup r, nodes')
            \<and> backup_delay_loop Gp MA MB (zip (Active_Path r) (Backup_Path r)) 0
                 = Inr (Backup_Delay_Cost r)
            \<and> Total_Cost r = Active_Cost r + Backup_Cost r + Deploy_Cost_active r
                 + Deploy_Cost_backup r + Backup_Delay_Cost r
            \<and> h = [physical_nodes, physical_nodes, n1, n1, n1, nodes'])"
    by blast
  have t: "Total_Cost r = Active_Cost r + Backup_Cost r + Deploy_Cost_active r
           + Deploy_Cost_backup r + Backup_Delay_Cost r"
    using alt by auto
  have b: "(find_feasible_path MB snB sfc Gp = Inr None
                \<and> Backup_Path r = [] \<and> Backup_Cost r = 0 \<and> Deploy_Cost_backup r = 0
                \<and> Backup_Delay_Cost r = 0
                \<and> Total_Cost r = Active_Cost r + Deploy_Cost_active r)
             \<or> (find_feasible_path MB snB sfc Gp
                   = Inr (Some (Backup_Path r, Backup_Delay r, Backup_Cost r))
                \<and> reserve_resources (Backup_Path r) MB n1 = Inr (Deploy_Cost_backup r, nodes')
                \<and> backup_delay_loop Gp MA MB (zip (Active_Path r) (Backup_Path r)) 0
                     = Inr (Backup_Delay_Cost r))"
    using alt by blast
  show "Total_Cost r = Active_Cost r + Backup_Cost r + Deploy_Cost_active r
           + Deploy_Cost_backup r + Backup_Delay_Cost r
     \<and> (\<exists>MSG_active sa nodes1 MSG_backup sb.
           construct_msg Gp sfc physical_nodes {} = Inr (MSG_active, sa)
         \<and> find_feasible_path MSG_active sa sfc Gp
              = Inr (Some (Active_Path r, Active_Delay r, Active_Cost r))
         \<and> reserve_resources (Active_Path r) MSG_active physical_nodes
              = Inr (Deploy_Cost_active r, nodes1)
         \<and> construct_msg Gp sfc nodes1 (set (map fst (Active_Path r))) = Inr (MSG_backup, sb)
         \<and> ((find_feasible_path MSG_backup sb sfc Gp = Inr None
                \<and> Backup_Path r = [] \<and> Backup_Cost r = 0 \<and> Deploy_Cost_backup r = 0
                \<and> Backup_Delay_Cost r = 0
                \<and> Total_Cost r = Active_Cost r + Deploy_Cost_active r)
             \<or> (find_feasible_path MSG_backup sb sfc Gp
                   = Inr (Some (Backup_Path r, Backup_Delay r, Backup_Cost r))
                \<and> reserve_resources (Backup_Path r) MSG_backup nodes1
                     = Inr (Deploy_Cost_backup r, nodes')
                \<and> backup_delay_loop Gp MSG_active MSG_backup
                     (zip (Active_Path r) (Backup_Path r)) 0 = Inr (Backup_Delay_Cost r))))"
    apply (rule conjI, rule t)
    apply (rule exI[of _ MA], rule exI[of _ snA], rule exI[of _ n1], rule exI[of _ MB],
        rule exI[of _ snB])
    apply (intro conjI cA fA rA cB b)
    done
next
  assume "compare_request Gp all_nodes physical_nodes sfc = Inr (Some c)"
  then show "\<exists>MSG_active sa cost_active used_nodes MSG_backup sb.
           construct_msg Gp sfc physical_nodes {} = Inr (MSG_active, sa)
         \<and> find_feasible_path_bf MSG_active sa sfc
              = Inr (Some (MSG_Active_Path c, MSG_Active_Delay c, cost_active))
         \<and> used_nodes_of MSG_active (MSG_Active_Path c) {} = Inr used_nodes
         \<and> construct_msg Gp sfc physical_nodes used_nodes = Inr (MSG_backup, sb)
         \<and> ((find_feasible_path_bf MSG_backup sb sfc = Inr None
                \<and> MSG_Backup_Path c = [] \<and> MSG_Backup_Delay c = 0
                \<and> MSG_Total_Cost c = cost_active)
             \<or> (\<exists>cost_backup backup_delay_cost.
                  find_feasible_path_bf MSG_backup sb sfc
                    = Inr (Some (MSG_Backup_Path c, MSG_Backup_Delay c, cost_backup))
                \<and> backup_delay_loop Gp MSG_active MSG_backup
                     (zip (MSG_Active_Path c) (MSG_Backup_Path c)) 0 = Inr backup_delay_cost
                \<and> MSG_Total_Cost c = cost_active + cost_backup + backup_delay_cost))"
    by (rule compare_request_Some)
qed

theorem total_cost_of_accepted_request_witness:
  "(\<exists>nodes' r h. place_request G4 L4 Rw = Inr (nodes', Some r, h)
      \<and> Active_Cost r = 3 \<and> Backup_Cost r = 9 \<and> Deploy_Cost_active r = 7
      \<and> Deploy_Cost_backup r = 7 \<and> Backup_Delay_Cost r = 4 \<and> Total_Cost r = 30)
   \<and> (\<exists>nodes' r h. place_request Gw Lw3 Rw = Inr (nodes', Some r, h)
      \<and> Active_Cost r = 3 \<and> Deploy_Cost_active r = 7 \<and> Backup_Path r = []
      \<and> Total_Cost r = 10)
   \<and> (\<exists>c. compare_request G4 [0, 1, 2, 3] L4 Rw = Inr (Some c)
      \<and> MSG_Active_Path c = [(0, 0), (1, 1)] \<and> MSG_Backup_Path c = [(2, 0), (3, 1)]
      \<and> MSG_Total_Cost c = 10)
   \<and> (\<exists>c. compare_request Gw [0, 1, 2, 3] Lw3 Rw = Inr (Some c)
      \<and> MSG_Active_Path c = [(0, 0), (1, 1)] \<and> MSG_Backup_Path c = []
      \<and> MSG_Total_Cost c = 3)"
proof -
  have "case place_request G4 L4 Rw of
          Inr (nodes', Some r, h) \<Rightarrow>
            Active_Cost r = 3 \<and> Backup_Cost r = 9 \<and> Deploy_Cost_active r = 7
            \<and> Deploy_Cost_backup r = 7 \<and> Backup_Delay_Cost r = 4
        | _ \<Rightarrow> False"
    by code_simp
  then obtain nodes' r h where e: "place_request G4 L4 Rw = Inr (nodes', Some r, h)"
    and p: "Active_Cost r = 3" "Backup_Cost r = 9" "Deploy_Cost_active r = 7"
      "Deploy_Cost_backup r = 7" "Backup_Delay_Cost r = 4"
    by (auto split: sum.splits option.splits prod.splits)
  from total_cost_of_accepted_request[where Gp = G4 and physical_nodes = L4 and sfc = Rw
      and nodes' = nodes' and r = r and h = h, THEN conjunct1] e p
  have "Total_Cost r = 30" by simp
  with e p have a: "\<exists>nodes' r h. place_request G4 L4 Rw = Inr (nodes', Some r, h)
      \<and> Active_Cost r = 3 \<and> Backup_Cost r = 9 \<and> Deploy_Cost_active r = 7
      \<and> Deploy_Cost_backup r = 7 \<and> Backup_Delay_Cost r = 4 \<and> Total_Cost r = 30"
    by blast
  have "case place_request Gw Lw3 Rw of
          Inr (nodes', Some r, h) \<Rightarrow>
            Active_Cost r = 3 \<and> Deploy_Cost_active r = 7 \<and> Backup_Path r = []
            \<and> Backup_Cost r = 0 \<and> Deploy_Cost_backup r = 0 \<and> Backup_Delay_Cost r = 0
        | _ \<Rightarrow> False"
    by code_simp
  then obtain nodes2 r2 h2 where e2: "place_request Gw Lw3 Rw = Inr (nodes2, Some r2, h2)"
    and p2: "Active_Cost r2 = 3" "Deploy_Cost_active r2 = 7" "Backup_Path r2 = []"
      "Backup_Cost r2 = 0" "Deploy_Cost_backup r2 = 0" "Backup_Delay_Cost r2 = 0"
    by (auto split: sum.splits option.splits prod.splits)
  from total_cost_of_accepted_request[where Gp = Gw and physical_nodes = Lw3 and sfc = Rw
      and nodes' = nodes2 and r = r2 and h = h2, THEN conjunct1] e2 p2
  have "Total_Cost r2 = 10" by simp
  with e2 p2 have b: "\<exists>nodes' r h. place_request Gw Lw3 Rw = Inr (nodes', Some r, h)
      \<and> Active_Cost r = 3 \<and> Deploy_Cost_active r = 7 \<and> Backup_Path r = []
      \<and> Total_Cost r = 10"
    by blast
  have "case compare_request G4 [0, 1, 2, 3] L4 Rw of
          Inr (Some c) \<Rightarrow>
            MSG_Active_Path c = [(0, 0), (1, 1)] \<and> MSG_Backup_Path c = [(2, 0), (3, 1)]
        | _ \<Rightarrow> False"
    by code_simp
  then obtain c3 where e3: "compare_request G4 [0, 1, 2, 3] L4 Rw = Inr (Some c3)"
    and p3: "MSG_Active_Path c3 = [(0, 0), (1, 1)]" "MSG_Backup_Path c3 = [(2, 0), (3, 1)]"
    by (auto split: sum.splits option.splits)
  from total_cost_of_accepted_request[where Gp = G4 and physical_nodes = L4 and sfc = Rw
      and all_nodes = "[0, 1, 2, 3]" and c = c3, THEN conjunct2] e3
  obtain MA sa ca U MB sb where
    cA: "construct_msg G4 Rw L4 {} = Inr (MA, sa)"
    and fA: "find_feasible_path_bf MA sa Rw
              = Inr (Some (MSG_Active_Path c3, MSG_Active_Delay c3, ca))"
    and uA: "used_nodes_of MA (MSG_Active_Path c3) {} = Inr U"
    and cB: "construct_msg G4 Rw L4 U = Inr (MB, sb)"
    and alt: "(find_feasible_path_bf MB sb Rw = Inr None
                \<and> MSG_Backup_Path c3 = [] \<and> MSG_Backup_Delay c3 = 0
                \<and> MSG_Total_Cost c3 = ca)
             \<or> (\<exists>cb bdc.
                  find_feasible_path_bf MB sb Rw
                    = Inr (Some (MSG_Backup_Path c3, MSG_Backup_Delay c3, cb))
                \<and> backup_delay_loop G4 MA MB
                     (zip (MSG_Active_Path c3) (MSG_Backup_Path c3)) 0 = Inr bdc
                \<and> MSG_Total_Cost c3 = ca + cb + bdc)"
    by blast
  have c1: "case construct_msg G4 Rw L4 {} of Inl e \<Rightarrow> False | Inr x \<Rightarrow> True" by code_simp
  have k1: "construct_msg G4 Rw L4 {} = Inr (MRw, snRw)"
    using c1 by (simp add: MRw_def snRw_def split: sum.splits)
  have m1: "MA = MRw" "sa = snRw" using cA k1 by simp_all
  have k2: "find_feasible_path_bf MRw snRw Rw = Inr (Some ([(0, 0), (1, 1)], 2, 3))"
    by code_simp
  have ca: "ca = 3" using fA k2 unfolding m1 by simp
  have k3: "used_nodes_of MRw [(0, 0), (1, 1)] {} = Inr {0, 1}" by code_simp
  have U: "U = {0, 1}" using uA k3 unfolding m1 p3 by simp
  have c2: "case construct_msg G4 Rw L4 {0, 1} of Inl e \<Rightarrow> False | Inr x \<Rightarrow> True"
    by code_simp
  have k4: "construct_msg G4 Rw L4 {0, 1} = Inr (MRwb, snRwb)"
    using c2 by (simp add: MRwb_def snRwb_def split: sum.splits)
  have m2: "MB = MRwb" "sb = snRwb" using cB k4 unfolding U by simp_all
  have k5: "find_feasible_path_bf MRwb snRwb Rw = Inr (Some ([(2, 0), (3, 1)], 2, 3))"
    by code_simp
  have k6: "backup_delay_loop G4 MRw MRwb (zip [(0, 0), (1, 1)] [(2, 0), (3, 1)]) 0 = Inr 4"
    by code_simp
  have "MSG_Total_Cost c3 = 10"
    using alt k5 k6 ca unfolding m1 m2 p3 by auto
  with e3 p3 have c: "\<exists>c. compare_request G4 [0, 1, 2, 3] L4 Rw = Inr (Some c)
      \<and> MSG_Active_Path c = [(0, 0), (1, 1)] \<and> MSG_Backup_Path c = [(2, 0), (3, 1)]
      \<and> MSG_Total_Cost c = 10"
    by blast
  have "case compare_request Gw [0, 1, 2, 3] Lw3 Rw of
          Inr (Some c) \<Rightarrow> MSG_Active_Path c = [(0, 0), (1, 1)] \<and> MSG_Backup_Path c = []
        | _ \<Rightarrow> False"
    by code_simp
  then obtain c4 where e4: "compare_request Gw [0, 1, 2, 3] Lw3 Rw = Inr (Some c4)"
    and p4: "MSG_Active_Path c4 = [(0, 0), (1, 1)]" "MSG_Backup_Path c4 = []"
    by (auto split: sum.splits option.splits)
  from total_cost_of_accepted_request[where Gp = Gw and physical_nodes = Lw3 and sfc = Rw
      and all_nodes = "[0, 1, 2, 3]" and c = c4, THEN conjunct2] e4
  obtain MA' sa' ca' U' MB' sb' where
    cA': "construct_msg Gw Rw Lw3 {} = Inr (MA', sa')"
    and fA': "find_feasible_path_bf MA' sa' Rw
              = Inr (Some (MSG_Active_Path c4, MSG_Active_Delay c4, ca'))"
    and uA': "used_nodes_of MA' (MSG_Active_Path c4) {} = Inr U'"
    and cB': "construct_msg Gw Rw Lw3 U' = Inr (MB', sb')"
    and alt': "(find_feasible_path_bf MB' sb' Rw = Inr None
                \<and> MSG_Backup_Path c4 = [] \<and> MSG_Backup_Delay c4 = 0
                \<and> MSG_Total_Cost c4 = ca')
             \<or> (\<exists>cb bdc.
                  find_feasible_path_bf MB' sb' Rw
                    = Inr (Some (MSG_Backup_Path c4, MSG_Backup_Delay c4, cb))
                \<and> backup_delay_loop Gw MA' MB'
                     (zip (MSG_Active_Path c4) (MSG_Backup_Path c4)) 0 = Inr bdc
                \<and> MSG_Total_Cost c4 = ca' + cb + bdc)"
    by blast
  have c5: "case construct_msg Gw Rw Lw3 {} of Inl e \<Rightarrow> False | Inr x \<Rightarrow> True" by code_simp
  have k7: "construct_msg Gw Rw Lw3 {} = Inr (MAw, snAw)"
    using c5 by (simp add: MAw_def snAw_def split: sum.splits)
  have m3: "MA' = MAw" "sa' = snAw" using cA' k7 by simp_all
  have k8: "find_feasible_path_bf MAw snAw Rw = Inr (Some ([(0, 0), (1, 1)], 2, 3))"
    by code_simp
  have ca': "ca' = 3" using fA' k8 unfolding m3 by simp
  have k9: "used_nodes_of MAw [(0, 0), (1, 1)] {} = Inr {0, 1}" by code_simp
  have U': "U' = {0, 1}" using uA' k9 unfolding m3 p4 by simp
  have c6: "case construct_msg Gw Rw Lw3 {0, 1} of Inl e \<Rightarrow> False | Inr x \<Rightarrow> True"
    by code_simp
  have k10: "construct_msg Gw Rw Lw3 {0, 1} = Inr (MAwb, snAwb)"
    using c6 by (simp add: MAwb_def snAwb_def split: sum.splits)
  have m4: "MB' = MAwb" "sb' = snAwb" using cB' k10 unfolding U' by simp_all
  have k11: "find_feasible_path_bf MAwb snAwb Rw = Inr None" by code_simp
  have "MSG_Total_Cost c4 = 3"
    using alt' k11 ca' unfolding m4 by auto
  with e4 p4 have d: "\<exists>c. compare_request Gw [0, 1, 2, 3] Lw3 Rw = Inr (Some c)
      \<and> MSG_Active_Path c = [(0, 0), (1, 1)] \<and> MSG_Backup_Path c = []
      \<and> MSG_Total_Cost c = 3"
    by blast
  show ?thesis using a b c d by (intro conjI)
qed

text \<open>
  On a substrate of fifteen nodes of which the nodes 0 to 3 are linked pairwise,
  \<open>simulate_with_msg_and_brute\<close> records for the request \<open>Rw\<close> the total cost 10: the
  cost 3 of the active path on the hosts 0 and 1, the cost 3 of the backup path on the
  hosts 2 and 3, and the backup-delay-cost 4. The reservation of the two paths, which
  this file never makes, would cost 7 each; with the two deployment costs the sum
  would be 24.
\<close>

theorem simulate_with_msg_and_brute_no_deployment_terms:
  "\<exists>c cost_active cost_backup backup_delay_cost extra_cost_a extra_cost_b nodes1 nodes2.
     simulate_with_msg_and_brute G15 [0..<15] [Rw] = Inr [c]
   \<and> construct_msg G15 Rw fresh_nodes_bf {} = Inr (MFa, snFa)
   \<and> find_feasible_path_bf MFa snFa Rw
        = Inr (Some (MSG_Active_Path c, MSG_Active_Delay c, cost_active))
   \<and> construct_msg G15 Rw fresh_nodes_bf {0, 1} = Inr (MFb, snFb)
   \<and> find_feasible_path_bf MFb snFb Rw
        = Inr (Some (MSG_Backup_Path c, MSG_Backup_Delay c, cost_backup))
   \<and> backup_delay_loop G15 MFa MFb (zip (MSG_Active_Path c) (MSG_Backup_Path c)) 0
        = Inr backup_delay_cost
   \<and> reserve_resources (MSG_Active_Path c) MFa fresh_nodes_bf = Inr (extra_cost_a, nodes1)
   \<and> reserve_resources (MSG_Backup_Path c) MFb nodes1 = Inr (extra_cost_b, nodes2)
   \<and> MSG_Active_Path c = [(0, 0), (1, 1)] \<and> MSG_Backup_Path c = [(2, 0), (3, 1)]
   \<and> MSG_Total_Cost c = 10
   \<and> cost_active + cost_backup + extra_cost_a + extra_cost_b + backup_delay_cost = 24"
proof -
  have "case compare_request G15 [0..<15] fresh_nodes_bf Rw of
          Inr (Some c) \<Rightarrow>
            MSG_Active_Path c = [(0, 0), (1, 1)] \<and> MSG_Backup_Path c = [(2, 0), (3, 1)]
            \<and> MSG_Active_Delay c = 2 \<and> MSG_Backup_Delay c = 2 \<and> MSG_Total_Cost c = 10
        | _ \<Rightarrow> False"
    by code_simp
  then obtain c where e: "compare_request G15 [0..<15] fresh_nodes_bf Rw = Inr (Some c)"
    and p: "MSG_Active_Path c = [(0, 0), (1, 1)]" "MSG_Backup_Path c = [(2, 0), (3, 1)]"
      "MSG_Active_Delay c = 2" "MSG_Backup_Delay c = 2" "MSG_Total_Cost c = 10"
    by (auto split: sum.splits option.splits)
  have s: "simulate_with_msg_and_brute G15 [0..<15] [Rw] = Inr [c]"
    using e by (simp add: simulate_with_msg_and_brute_def)
  have c1: "case construct_msg G15 Rw fresh_nodes_bf {} of Inl e \<Rightarrow> False | Inr x \<Rightarrow> True"
    by code_simp
  have k1: "construct_msg G15 Rw fresh_nodes_bf {} = Inr (MFa, snFa)"
    using c1 by (simp add: MFa_def snFa_def split: sum.splits)
  have k2: "find_feasible_path_bf MFa snFa Rw = Inr (Some ([(0, 0), (1, 1)], 2, 3))"
    by code_simp
  have c2: "case construct_msg G15 Rw fresh_nodes_bf {0, 1} of
              Inl e \<Rightarrow> False | Inr x \<Rightarrow> True"
    by code_simp
  have k4: "construct_msg G15 Rw fresh_nodes_bf {0, 1} = Inr (MFb, snFb)"
    using c2 by (simp add: MFb_def snFb_def split: sum.splits)
  have k5: "find_feasible_path_bf MFb snFb Rw = Inr (Some ([(2, 0), (3, 1)], 2, 3))"
    by code_simp
  have k6: "backup_delay_loop G15 MFa MFb (zip [(0, 0), (1, 1)] [(2, 0), (3, 1)]) 0 = Inr 4"
    by code_simp
  have "case reserve_resources [(0, 0), (1, 1)] MFa fresh_nodes_bf of
       Inr (da, n1) \<Rightarrow> da = 7 \<and>
         (case reserve_resources [(2, 0), (3, 1)] MFb n1 of
            Inr (db, n2) \<Rightarrow> db = 7 | Inl e \<Rightarrow> False)
     | Inl e \<Rightarrow> False"
    by code_simp
  then obtain n1 where
    r1: "reserve_resources [(0, 0), (1, 1)] MFa fresh_nodes_bf = Inr (7, n1)"
    and q: "case reserve_resources [(2, 0), (3, 1)] MFb n1 of
              Inr (db, n2) \<Rightarrow> db = 7 | Inl e \<Rightarrow> False"
    by (cases "reserve_resources [(0, 0), (1, 1)] MFa fresh_nodes_bf") auto
  from q obtain n2 where
    r2: "reserve_resources [(2, 0), (3, 1)] MFb n1 = Inr (7, n2)"
    by (cases "reserve_resources [(2, 0), (3, 1)] MFb n1") auto
  show ?thesis
    apply (rule exI[of _ c], rule exI[of _ 3], rule exI[of _ 3], rule exI[of _ 4],
        rule exI[of _ 7], rule exI[of _ 7], rule exI[of _ n1], rule exI[of _ n2])
    unfolding p
    apply (intro conjI s k1 k2 k4 k5 k6 r1 r2)
    apply simp_all
    done
qed

section \<open>Failed requests\<close>

lemma place_request_fails:
  assumes c: "construct_msg Gp sfc pn {} = Inr (MA, snA)"
    and f: "[] \<in> set snA \<or> find_feasible_path MA snA sfc Gp = Inr None"
  shows "place_request Gp pn sfc = Inr (pn, None, if [] \<in> set snA then [pn] else [pn, pn])"
proof (cases "[] \<in> set snA")
  case True
  then have "\<not> list_all (\<lambda>st. st \<noteq> []) snA" by (auto simp: list_all_iff)
  then show ?thesis using True by (simp add: place_request_def c)
next
  case False
  then have "list_all (\<lambda>st. st \<noteq> []) snA" by (auto simp: list_all_iff)
  moreover have "find_feasible_path MA snA sfc Gp = Inr None" using f False by blast
  ultimately show ?thesis using False by (simp add: place_request_def c)
qed

text \<open>
  Claim C9. When the active graph has a stage without candidates, or the search on it
  returns \<open>None\<close>, the loop body of \<open>run_simulation\<close> returns the ledger it was given,
  every host with its \<open>used_cpu\<close> and \<open>activated\<close> as before, and no placement; the
  loop over the requests then goes on to the next request with that ledger and with
  \<open>placements\<close> as it was, nothing being appended for the failed request. Conversely,
  whenever the loop body returns no placement, the ledger is unchanged and the failure
  is one of these two.
\<close>

theorem failed_request_leaves_ledger:
  "(construct_msg Gp sfc physical_nodes {} = Inr (MSG_active, stage_nodes_active)
      \<and> ([] \<in> set stage_nodes_active
          \<or> find_feasible_path MSG_active stage_nodes_active sfc Gp = Inr None)
    \<longrightarrow> (\<exists>h. place_request Gp physical_nodes sfc = Inr (physical_nodes, None, h)
           \<and> (\<forall>L\<in>set h. L = physical_nodes)
           \<and> request_loop Gp (sfc # rest) physical_nodes placements history
               = request_loop Gp rest physical_nodes placements (history @ h)))
   \<and> (place_request Gp physical_nodes sfc = Inr (nodes', None, h')
    \<longrightarrow> nodes' = physical_nodes \<and> (\<forall>L\<in>set h'. L = physical_nodes)
        \<and> (\<exists>M sn. construct_msg Gp sfc physical_nodes {} = Inr (M, sn)
              \<and> ([] \<in> set sn \<or> find_feasible_path M sn sfc Gp = Inr None)))"
proof (rule conjI; rule impI)
  assume a: "construct_msg Gp sfc physical_nodes {} = Inr (MSG_active, stage_nodes_active)
      \<and> ([] \<in> set stage_nodes_active
          \<or> find_feasible_path MSG_active stage_nodes_active sfc Gp = Inr None)"
  let ?h = "if [] \<in> set stage_nodes_active then [physical_nodes]
            else [physical_nodes, physical_nodes]"
  have p: "place_request Gp physical_nodes sfc = Inr (physical_nodes, None, ?h)"
    using place_request_fails[of Gp sfc physical_nodes MSG_active stage_nodes_active] a
    by blast
  have q: "\<forall>L\<in>set ?h. L = physical_nodes" by simp
  have l: "request_loop Gp (sfc # rest) physical_nodes placements history
               = request_loop Gp rest physical_nodes placements (history @ ?h)"
    by (simp only: request_loop.simps p sum.case prod.case option.case)
  show "\<exists>h. place_request Gp physical_nodes sfc = Inr (physical_nodes, None, h)
           \<and> (\<forall>L\<in>set h. L = physical_nodes)
           \<and> request_loop Gp (sfc # rest) physical_nodes placements history
               = request_loop Gp rest physical_nodes placements (history @ h)"
    using p q l by blast
next
  assume a: "place_request Gp physical_nodes sfc = Inr (nodes', None, h')"
  from place_request_None[OF a] obtain MA snA where
    n: "nodes' = physical_nodes" and h: "h' = [physical_nodes] \<or> h' = [physical_nodes, physical_nodes]"
    and c: "construct_msg Gp sfc physical_nodes {} = Inr (MA, snA)"
    and i: "if list_all (\<lambda>st. st \<noteq> []) snA
               then find_feasible_path MA snA sfc Gp = Inr None \<and> h' = [physical_nodes, physical_nodes]
               else h' = [physical_nodes]"
    by blast
  have "[] \<in> set snA \<or> find_feasible_path MA snA sfc Gp = Inr None"
    using i by (cases "list_all (\<lambda>st. st \<noteq> []) snA") (auto simp: list_all_iff)
  then have e: "\<exists>M sn. construct_msg Gp sfc physical_nodes {} = Inr (M, sn)
              \<and> ([] \<in> set sn \<or> find_feasible_path M sn sfc Gp = Inr None)"
    using c by blast
  have "\<forall>L\<in>set h'. L = physical_nodes" using h by auto
  then show "nodes' = physical_nodes \<and> (\<forall>L\<in>set h'. L = physical_nodes)
        \<and> (\<exists>M sn. construct_msg Gp sfc physical_nodes {} = Inr (M, sn)
              \<and> ([] \<in> set sn \<or> find_feasible_path M sn sfc Gp = Inr None))"
    using n e by blast
qed

theorem failed_request_leaves_ledger_witness:
  "(\<exists>h. place_request G4 L4 Rb = Inr (L4, None, h)
       \<and> request_loop G4 [Rb, Rw] L4 [] [] = request_loop G4 [Rw] L4 [] ([] @ h))
   \<and> (\<exists>h. place_request G4 L4 Rt = Inr (L4, None, h)
       \<and> request_loop G4 [Rt, Rw] L4 [] [] = request_loop G4 [Rw] L4 [] ([] @ h))
   \<and> (\<exists>nodes' h'. place_request G4 L4 Rb = Inr (nodes', None, h') \<and> nodes' = L4
       \<and> list_all (\<lambda>L. L = L4) h')"
proof -
  have c1: "case construct_msg G4 Rb L4 {} of Inl e \<Rightarrow> False | Inr x \<Rightarrow> True" by code_simp
  have h1: "construct_msg G4 Rb L4 {} = Inr (MRb, snRb)"
    using c1 by (simp add: MRb_def snRb_def split: sum.splits)
  have e1: "[] \<in> set snRb" by code_simp
  have a: "\<exists>h. place_request G4 L4 Rb = Inr (L4, None, h)
       \<and> request_loop G4 [Rb, Rw] L4 [] [] = request_loop G4 [Rw] L4 [] ([] @ h)"
    using failed_request_leaves_ledger[of G4 Rb L4 MRb snRb "[Rw]" "[]" "[]", THEN conjunct1]
      h1 e1 by blast
  have c2: "case construct_msg G4 Rt L4 {} of Inl e \<Rightarrow> False | Inr x \<Rightarrow> True" by code_simp
  have h2: "construct_msg G4 Rt L4 {} = Inr (MRt, snRt)"
    using c2 by (simp add: MRt_def snRt_def split: sum.splits)
  have e2: "find_feasible_path MRt snRt Rt G4 = Inr None" by code_simp
  have b: "\<exists>h. place_request G4 L4 Rt = Inr (L4, None, h)
       \<and> request_loop G4 [Rt, Rw] L4 [] [] = request_loop G4 [Rw] L4 [] ([] @ h)"
    using failed_request_leaves_ledger[of G4 Rt L4 MRt snRt "[Rw]" "[]" "[]", THEN conjunct1]
      h2 e2 by blast
  have "case place_request G4 L4 Rb of Inr (nodes', None, h') \<Rightarrow> True | _ \<Rightarrow> False"
    by code_simp
  then obtain nodes' h' where p: "place_request G4 L4 Rb = Inr (nodes', None, h')"
    by (auto split: sum.splits option.splits prod.splits)
  from failed_request_leaves_ledger[where Gp = G4 and sfc = Rb and physical_nodes = L4
      and nodes' = nodes' and h' = h', THEN conjunct2] p
  have "nodes' = L4 \<and> (\<forall>L\<in>set h'. L = L4)" by blast
  then have c: "\<exists>nodes' h'. place_request G4 L4 Rb = Inr (nodes', None, h') \<and> nodes' = L4
       \<and> list_all (\<lambda>L. L = L4) h'"
    using p by (auto simp: list_all_iff)
  show ?thesis using a b c by simp
qed

section \<open>The capacity invariant\<close>

lemma fresh_ledger:
  "aligned (map (\<lambda>i. new_node i c) [0..<n])"
  "0 \<le> c \<Longrightarrow> within_capacity (map (\<lambda>i. new_node i c) [0..<n])"
  "(\<forall>i<n. has_node Gp i) \<Longrightarrow> in_substrate Gp (map (\<lambda>i. new_node i c) [0..<n])"
  by (auto simp: aligned_def within_capacity_def in_substrate_def new_node_def)

lemma vmf_loop_outcome:
  "(\<exists>v. vmf_loop pls vn vp c = Inr v) \<or> vmf_loop pls vn vp c = Inl TypeError"
proof (induction pls arbitrary: vn vp c)
  case Nil
  then show ?case by simp
next
  case (Cons p rest)
  show ?case
  proof (cases "Backup_Path p = []")
    case True
    then show ?thesis by simp
  next
    case False
    obtain vn1 vp1 c1 where
      "vmf_node_loop (map fst (Active_Path p @ Backup_Path p)) (SFC_ID p) vn vp c = (vn1, vp1, c1)"
      by (cases "vmf_node_loop (map fst (Active_Path p @ Backup_Path p)) (SFC_ID p) vn vp c") auto
    then show ?thesis using False Cons.IH[of vn1 vp1 c1] by (simp add: Let_def)
  qed
qed

text \<open>
  Claim C2. Let the ledger hold host \<open>i\<close> at index \<open>i\<close>, as the ledger of
  \<open>run_simulation\<close> does, with every host a node of the substrate and
  \<open>used_cpu \<le> cpu\<close> for every host (a fresh ledger with \<open>used_cpu = 0\<close> and positive
  capacities is one), and let every request have at least one stage and endpoints in
  the substrate. Then the loop over the requests raises nothing, and in the ledger
  after each call of \<open>construct_msg\<close>, \<open>find_feasible_path\<close> and \<open>reserve_resources\<close>
  of the run, as in the final ledger, every host has \<open>used_cpu \<le> cpu\<close>. The reason is
  the second statement: a chain the search returns on a graph \<open>construct_msg\<close> built
  over a ledger has pairwise distinct hosts, each with \<open>cpu - used_cpu\<close> at least the
  demand of its stage, so its reservation keeps \<open>used_cpu \<le> cpu\<close>. The third
  statement is the first for the ledger \<open>run_simulation\<close> builds; after the loop
  \<open>run_simulation\<close> returns, unless the monitoring placement raises on a placement
  without backup.
\<close>

theorem capacity_invariant:
  "(aligned physical_nodes \<and> in_substrate Gp physical_nodes
      \<and> (\<forall>sfc\<in>set sfc_requests. request_ok Gp sfc)
      \<and> (\<forall>n\<in>set physical_nodes. used_cpu n \<le> cpu n)
    \<longrightarrow> (\<exists>nodes' placements history.
           request_loop Gp sfc_requests physical_nodes [] [] = Inr (nodes', placements, history)
           \<and> (\<forall>L\<in>set history. \<forall>n\<in>set L. used_cpu n \<le> cpu n)
           \<and> (\<forall>n\<in>set nodes'. used_cpu n \<le> cpu n)))
   \<and> (aligned ledger \<and> (\<forall>n\<in>set ledger. used_cpu n \<le> cpu n)
       \<and> construct_msg Gp sfc ledger used_nodes = Inr (MSG, stage_nodes)
       \<and> find_feasible_path MSG stage_nodes sfc Gp = Inr (Some (path, d, c))
    \<longrightarrow> (\<exists>extra_cost ledger'. reserve_resources path MSG ledger = Inr (extra_cost, ledger')
           \<and> (\<forall>n\<in>set ledger'. used_cpu n \<le> cpu n)))
   \<and> ((\<forall>i<NUM_PHYSICAL_NODES. has_node Gp i) \<and> (\<forall>sfc\<in>set sfc_requests. request_ok Gp sfc)
    \<longrightarrow> (\<exists>nodes' placements history.
           request_loop Gp sfc_requests fresh_nodes [] [] = Inr (nodes', placements, history)
           \<and> (\<forall>L\<in>set history. \<forall>n\<in>set L. used_cpu n \<le> cpu n)
           \<and> (\<forall>n\<in>set nodes'. used_cpu n \<le> cpu n)
           \<and> (run_simulation Gp sfc_requests = Inr (nodes', placements, history)
               \<or> run_simulation Gp sfc_requests = Inl TypeError)))"
proof (rule conjI; (rule conjI)?; rule impI)
  assume a: "aligned physical_nodes \<and> in_substrate Gp physical_nodes
      \<and> (\<forall>sfc\<in>set sfc_requests. request_ok Gp sfc)
      \<and> (\<forall>n\<in>set physical_nodes. used_cpu n \<le> cpu n)"
  then have w: "within_capacity physical_nodes" by (simp add: within_capacity_def)
  have e: "\<forall>L\<in>set ([]::PhysicalNode list list). within_capacity L" by simp
  from a have a1: "aligned physical_nodes" and a2: "in_substrate Gp physical_nodes"
    and a3: "\<forall>sfc\<in>set sfc_requests. request_ok Gp sfc" by simp_all
  from request_loop_total[OF a1 a2 a3 w e, of "[]"]
  show "\<exists>nodes' placements history.
           request_loop Gp sfc_requests physical_nodes [] [] = Inr (nodes', placements, history)
           \<and> (\<forall>L\<in>set history. \<forall>n\<in>set L. used_cpu n \<le> cpu n)
           \<and> (\<forall>n\<in>set nodes'. used_cpu n \<le> cpu n)"
    unfolding within_capacity_def by blast
next
  assume a: "aligned ledger \<and> (\<forall>n\<in>set ledger. used_cpu n \<le> cpu n)
       \<and> construct_msg Gp sfc ledger used_nodes = Inr (MSG, stage_nodes)
       \<and> find_feasible_path MSG stage_nodes sfc Gp = Inr (Some (path, d, c))"
  then have al: "aligned ledger" and w: "within_capacity ledger"
    and cm: "construct_msg Gp sfc ledger used_nodes = Inr (MSG, stage_nodes)"
    and f: "find_feasible_path MSG stage_nodes sfc Gp = Inr (Some (path, d, c))"
    by (simp_all add: within_capacity_def)
  from reserve_chain[OF al constructed_chain(1)[OF cm f]] w
  show "\<exists>extra_cost ledger'. reserve_resources path MSG ledger = Inr (extra_cost, ledger')
           \<and> (\<forall>n\<in>set ledger'. used_cpu n \<le> cpu n)"
    unfolding within_capacity_def by blast
next
  assume a: "(\<forall>i<NUM_PHYSICAL_NODES. has_node Gp i) \<and> (\<forall>sfc\<in>set sfc_requests. request_ok Gp sfc)"
  have a1: "aligned fresh_nodes" unfolding fresh_nodes_def by (rule fresh_ledger(1))
  have a2: "in_substrate Gp fresh_nodes"
    unfolding fresh_nodes_def using a by (intro fresh_ledger(3)) simp
  have a3: "\<forall>sfc\<in>set sfc_requests. request_ok Gp sfc" using a by simp
  have w: "within_capacity fresh_nodes"
    unfolding fresh_nodes_def by (rule fresh_ledger(2)) (simp add: MAX_CPU_PER_NODE_def)
  have e: "\<forall>L\<in>set ([]::PhysicalNode list list). within_capacity L" by simp
  from request_loop_total[OF a1 a2 a3 w e, of "[]"] obtain nodes' placements history where
    r: "request_loop Gp sfc_requests fresh_nodes [] [] = Inr (nodes', placements, history)"
    and i: "within_capacity nodes'" "\<forall>L\<in>set history. within_capacity L" by blast
  have m: "run_simulation Gp sfc_requests = Inr (nodes', placements, history)
               \<or> run_simulation Gp sfc_requests = Inl TypeError"
    using vmf_loop_outcome[of placements "{}" "[]" 0]
    by (auto simp: run_simulation_def r run_monitoring_placement_def split: sum.splits)
  show "\<exists>nodes' placements history.
           request_loop Gp sfc_requests fresh_nodes [] [] = Inr (nodes', placements, history)
           \<and> (\<forall>L\<in>set history. \<forall>n\<in>set L. used_cpu n \<le> cpu n)
           \<and> (\<forall>n\<in>set nodes'. used_cpu n \<le> cpu n)
           \<and> (run_simulation Gp sfc_requests = Inr (nodes', placements, history)
               \<or> run_simulation Gp sfc_requests = Inl TypeError)"
    using r i m unfolding within_capacity_def by blast
qed

theorem capacity_invariant_witness:
  "(\<exists>nodes' placements history.
     request_loop G4 [Rb, Rw, Rt, Rw] L4 [] [] = Inr (nodes', placements, history)
     \<and> length placements = 2 \<and> length history = 15
     \<and> list_all (list_all (\<lambda>n. used_cpu n \<le> cpu n)) history
     \<and> list_all (\<lambda>n. used_cpu n \<le> cpu n) nodes')
   \<and> (\<exists>extra_cost ledger'.
         reserve_resources [(0, 0), (2, 1)] MRw L4 = Inr (extra_cost, ledger')
         \<and> list_all (\<lambda>n. used_cpu n \<le> cpu n) ledger')
   \<and> (\<exists>nodes' placements history.
         request_loop G6 [Rw, Rb, Rw] fresh_nodes [] [] = Inr (nodes', placements, history)
         \<and> list_all (list_all (\<lambda>n. used_cpu n \<le> cpu n)) history
         \<and> list_all (\<lambda>n. used_cpu n \<le> cpu n) nodes')"
proof -
  have h1: "aligned L4" unfolding L4_def by (rule fresh_ledger(1))
  have h2: "in_substrate G4 L4" unfolding L4_def by (rule fresh_ledger(3)) (simp add: G4_def)
  have h3: "\<forall>sfc\<in>set [Rb, Rw, Rt, Rw]. request_ok G4 sfc"
    by (simp add: request_ok_def Rb_def Rt_def Rw_def G4_def)
  have h4: "\<forall>n\<in>set L4. used_cpu n \<le> cpu n"
    using fresh_ledger(2)[of 7 4] by (simp add: L4_def within_capacity_def)
  from capacity_invariant[of L4 G4 "[Rb, Rw, Rt, Rw]", THEN conjunct1] h1 h2 h3 h4
  obtain nodes' placements history where
    r: "request_loop G4 [Rb, Rw, Rt, Rw] L4 [] [] = Inr (nodes', placements, history)"
    and i: "\<forall>L\<in>set history. \<forall>n\<in>set L. used_cpu n \<le> cpu n"
      "\<forall>n\<in>set nodes'. used_cpu n \<le> cpu n"
    by blast
  have "case request_loop G4 [Rb, Rw, Rt, Rw] L4 [] [] of
          Inr (nodes', placements, history) \<Rightarrow> length placements = 2 \<and> length history = 15
        | Inl e \<Rightarrow> False"
    by code_simp
  then have l: "length placements = 2 \<and> length history = 15" using r by simp
  have a: "\<exists>nodes' placements history.
     request_loop G4 [Rb, Rw, Rt, Rw] L4 [] [] = Inr (nodes', placements, history)
     \<and> length placements = 2 \<and> length history = 15
     \<and> list_all (list_all (\<lambda>n. used_cpu n \<le> cpu n)) history
     \<and> list_all (\<lambda>n. used_cpu n \<le> cpu n) nodes'"
    using r i l by (auto simp: list_all_iff)
  have c1: "case construct_msg G4 Rw L4 {} of Inl e \<Rightarrow> False | Inr x \<Rightarrow> True" by code_simp
  have k1: "construct_msg G4 Rw L4 {} = Inr (MRw, snRw)"
    using c1 by (simp add: MRw_def snRw_def split: sum.splits)
  have k2: "find_feasible_path MRw snRw Rw G4 = Inr (Some ([(0, 0), (2, 1)], 2, 3))"
    by code_simp
  from capacity_invariant[where ledger = L4 and Gp = G4 and sfc = Rw and used_nodes = "{}"
        and MSG = MRw and stage_nodes = snRw and path = "[(0, 0), (2, 1)]" and d = 2 and c = 3,
      THEN conjunct2, THEN conjunct1] h1 h4 k1 k2
  have b: "\<exists>extra_cost ledger'.
         reserve_resources [(0, 0), (2, 1)] MRw L4 = Inr (extra_cost, ledger')
         \<and> list_all (\<lambda>n. used_cpu n \<le> cpu n) ledger'"
    by (simp add: list_all_iff)
  have g1: "\<forall>i<NUM_PHYSICAL_NODES. has_node G6 i"
    by (simp add: NUM_PHYSICAL_NODES_def G6_def)
  have g2: "\<forall>sfc\<in>set [Rw, Rb, Rw]. request_ok G6 sfc"
    by (simp add: request_ok_def Rb_def Rw_def G6_def)
  from capacity_invariant[where Gp = G6 and sfc_requests = "[Rw, Rb, Rw]",
      THEN conjunct2, THEN conjunct2] g1 g2
  obtain nodes6 placements6 history6 where
    r6: "request_loop G6 [Rw, Rb, Rw] fresh_nodes [] [] = Inr (nodes6, placements6, history6)"
    and i6: "\<forall>L\<in>set history6. \<forall>n\<in>set L. used_cpu n \<le> cpu n"
      "\<forall>n\<in>set nodes6. used_cpu n \<le> cpu n"
    by blast
  then have c: "\<exists>nodes' placements history.
         request_loop G6 [Rw, Rb, Rw] fresh_nodes [] [] = Inr (nodes', placements, history)
         \<and> list_all (list_all (\<lambda>n. used_cpu n \<le> cpu n)) history
         \<and> list_all (\<lambda>n. used_cpu n \<le> cpu n) nodes'"
    by (auto simp: list_all_iff)
  show ?thesis using a b c by simp
qed

section \<open>The monitoring placement\<close>

text \<open>
  The search never returns the empty path: on the empty candidate the loop body of
  \<open>MSG.py\<close> raises at \<open>path[0]\<close>. So an accepted request has an empty \<open>Backup_Path\<close>
  exactly when its backup search returned \<open>None\<close>, and for a batch that accepts such a
  request \<open>run_simulation\<close> raises \<open>TypeError\<close> in the monitoring placement, after the
  loop over the requests has completed and the placements have been printed.
\<close>

lemma found_path_nonempty:
  assumes "find_feasible_path M sn sfc Gp = Inr (Some (p, d, c))"
  shows "p \<noteq> []"
proof -
  from assms obtain paths where
    c: "collect_paths (check_path M sfc Gp) (product_lists sn) [] = Inr paths"
    and m: "min_by_cost paths = Some (p, d, c)"
    by (auto simp: find_feasible_path_def split: sum.splits)
  from collect_paths_mem[OF c min_by_cost_mem[OF m]] obtain q where
    q: "check_path M sfc Gp q = Inr (Some (p, d, c))" by auto
  from check_path_Some(1)[OF q] have e: "q = p" by simp
  have "check_path M sfc Gp [] = Inl IndexError" by (simp add: check_path_def)
  then show ?thesis using q e by auto
qed

lemma vmf_loop_raises:
  "\<exists>r\<in>set pls. Backup_Path r = [] \<Longrightarrow> vmf_loop pls vn vp c = Inl TypeError"
proof (induction pls arbitrary: vn vp c)
  case Nil
  then show ?case by simp
next
  case (Cons p rest)
  show ?case
  proof (cases "Backup_Path p = []")
    case True
    then show ?thesis by simp
  next
    case False
    then have r: "\<exists>r\<in>set rest. Backup_Path r = []" using Cons.prems by auto
    obtain vn1 vp1 c1 where
      "vmf_node_loop (map fst (Active_Path p @ Backup_Path p)) (SFC_ID p) vn vp c = (vn1, vp1, c1)"
      by (cases "vmf_node_loop (map fst (Active_Path p @ Backup_Path p)) (SFC_ID p) vn vp c") auto
    then show ?thesis using False Cons.IH[OF r, of vn1 vp1 c1] by (simp add: Let_def)
  qed
qed

lemma run_simulation_raises_without_backup:
  assumes "request_loop Gp sfc_requests fresh_nodes [] [] = Inr (nodes', placements, history)"
    and "\<exists>r\<in>set placements. Backup_Path r = []"
  shows "run_simulation Gp sfc_requests = Inl TypeError"
  using assms vmf_loop_raises[OF assms(2), of "{}" "[]" 0]
  by (simp add: run_simulation_def run_monitoring_placement_def)

end
